theory Spec2Isabelle
  imports Main "HOL-Library.AList"
begin

section \<open>Text and characters\<close>

text \<open>
  Python strings are modelled as \<^typ>\<open>string\<close>.  The character classes of the regular
  expressions (\<^verbatim>\<open>\d\<close>, \<^verbatim>\<open>\w\<close>, \<^verbatim>\<open>\s\<close>) and \<^verbatim>\<open>str.upper\<close> are modelled on their
  ASCII fragment, the alphabet of the exchange format; a character above 127 is in none
  of the three classes and is left alone by \<open>upper\<close>.
\<close>

definition squote :: char where "squote = CHR 0x27"
definition dquote :: char where "dquote = CHR 0x22"
definition backslash :: char where "backslash = CHR 0x5C"
definition newline :: char where "newline = CHR 0x0A"

definition is_digit :: "char \<Rightarrow> bool" where
  "is_digit c = (48 \<le> (of_char c :: nat) \<and> (of_char c :: nat) \<le> 57)"

definition is_word :: "char \<Rightarrow> bool" where
  "is_word c = (let n = (of_char c :: nat) in
     (48 \<le> n \<and> n \<le> 57) \<or> (65 \<le> n \<and> n \<le> 90) \<or> (97 \<le> n \<and> n \<le> 122) \<or> n = 95)"

text \<open>Python's \<^verbatim>\<open>\s\<close> on a str pattern: tab to carriage return, the four separators
  0x1C to 0x1F, and the space.\<close>

definition is_space :: "char \<Rightarrow> bool" where
  "is_space c = (let n = (of_char c :: nat) in
     (9 \<le> n \<and> n \<le> 13) \<or> (28 \<le> n \<and> n \<le> 31) \<or> n = 32)"

definition upper_char :: "char \<Rightarrow> char" where
  "upper_char c = (let n = (of_char c :: nat) in
     if 97 \<le> n \<and> n \<le> 122 then char_of (n - 32) else c)"

definition upper :: "string \<Rightarrow> string" where
  "upper s = map upper_char s"

text \<open>\<^verbatim>\<open>int(s)\<close> on a string of decimal digits, and \<^verbatim>\<open>str(n)\<close> as used by the f-strings.
  Python integers are unbounded, and so are these; the interpreter's configurable limit on
  the number of digits it converts is not part of the model.\<close>

definition digit_val :: "char \<Rightarrow> int" where
  "digit_val c = int (of_char c) - 48"

definition int_of_str :: "string \<Rightarrow> int" where
  "int_of_str s = foldl (\<lambda>acc c. 10 * acc + digit_val c) 0 s"

fun str_nat :: "nat \<Rightarrow> string" where
  "str_nat n = (if n < 10 then [char_of (48 + n)]
                else str_nat (n div 10) @ [char_of (48 + n mod 10)])"

declare str_nat.simps [simp del]

definition str_int :: "int \<Rightarrow> string" where
  "str_int i = (if i < 0 then CHR ''-'' # str_nat (nat (- i)) else str_nat (nat i))"

section \<open>Step 1: the type registry\<close>

definition IFC_TO_BOT_ZONE :: "(string \<times> string) list" where
  "IFC_TO_BOT_ZONE =
    [(''IFCSITE'', ''bot:Site''),
     (''IFCBUILDING'', ''bot:Building''),
     (''IFCBUILDINGSTOREY'', ''bot:Storey''),
     (''IFCSPACE'', ''bot:Space'')]"

definition IFC_TO_BOT_ELEMENT :: "(string \<times> string) list" where
  "IFC_TO_BOT_ELEMENT =
    [(''IFCWALL'', ''bot:Element''),
     (''IFCWALLSTANDARDCASE'', ''bot:Element''),
     (''IFCSLAB'', ''bot:Element''),
     (''IFCBEAM'', ''bot:Element''),
     (''IFCCOLUMN'', ''bot:Element''),
     (''IFCDOOR'', ''bot:Element''),
     (''IFCWINDOW'', ''bot:Element''),
     (''IFCPLATE'', ''bot:Element''),
     (''IFCFURNISHINGELEMENT'', ''bot:Element''),
     (''IFCSTAIR'', ''bot:Element''),
     (''IFCSTAIRFLIGHT'', ''bot:Element''),
     (''IFCFLOWTERMINAL'', ''bot:Element'')]"

definition IFC_REL_TO_BOT_PROP :: "(string \<times> string) list" where
  "IFC_REL_TO_BOT_PROP =
    [(''IFCRELAGGREGATES'', ''bot:containsZone_or_hasSubElement''),
     (''IFCRELCONTAINEDINSPATIALSTRUCTURE'', ''bot:containsElement''),
     (''IFCRELCONNECTSELEMENTS'', ''bot:adjacentElement''),
     (''IFCRELINTERFERESELEMENTS'', ''bot:intersectingElement'')]"

text \<open>\<^verbatim>\<open>key in d\<close> for a dictionary kept as an association list.\<close>

definition in_dict :: "'k \<Rightarrow> ('k \<times> 'v) list \<Rightarrow> bool" where
  "in_dict k d = (k \<in> set (map fst d))"

definition IFC_TYPES_OF_INTEREST :: "string set" where
  "IFC_TYPES_OF_INTEREST =
     set (map fst IFC_TO_BOT_ZONE) \<union> set (map fst IFC_TO_BOT_ELEMENT)
     \<union> set (map fst IFC_REL_TO_BOT_PROP) \<union> {''IFCPROJECT''}"

section \<open>Step 3: the neutral structures\<close>

record IfcEntity =
  ent_id :: int
  ent_type :: string
  name :: string
  global_id :: string

record IfcRelationship =
  rel_id :: int
  rel_type :: string
  parent_id :: int
  child_ids :: "int list"

text \<open>The two constructors; both store the type in upper case.\<close>

definition new_IfcEntity :: "int \<Rightarrow> string \<Rightarrow> string \<Rightarrow> string \<Rightarrow> IfcEntity" where
  "new_IfcEntity i t n g = \<lparr>ent_id = i, ent_type = upper t, name = n, global_id = g\<rparr>"

definition new_IfcRelationship :: "int \<Rightarrow> string \<Rightarrow> int \<Rightarrow> int list \<Rightarrow> IfcRelationship" where
  "new_IfcRelationship i t p cs = \<lparr>rel_id = i, rel_type = upper t, parent_id = p, child_ids = cs\<rparr>"

section \<open>Step 4: the mapping engine\<close>

text \<open>
  The entity dictionary is an association list in insertion order, which is the order
  Python iterates a dict in; \<open>entities.get\<close> is \<^const>\<open>map_of\<close>.  A triple is
  (subject, predicate, object).
\<close>

type_synonym entities = "(int \<times> IfcEntity) list"
type_synonym triple = "string \<times> string \<times> string"

definition classify_ifc_entity :: "IfcEntity \<Rightarrow> string option" where
  "classify_ifc_entity ent =
     (if in_dict (ent_type ent) IFC_TO_BOT_ZONE then map_of IFC_TO_BOT_ZONE (ent_type ent)
      else if in_dict (ent_type ent) IFC_TO_BOT_ELEMENT then map_of IFC_TO_BOT_ELEMENT (ent_type ent)
      else None)"

definition is_zone_id :: "entities \<Rightarrow> int \<Rightarrow> bool" where
  "is_zone_id entities ifc_id =
     (case map_of entities ifc_id of None \<Rightarrow> False
      | Some e \<Rightarrow> in_dict (ent_type e) IFC_TO_BOT_ZONE)"

definition is_element_id :: "entities \<Rightarrow> int \<Rightarrow> bool" where
  "is_element_id entities ifc_id =
     (case map_of entities ifc_id of None \<Rightarrow> False
      | Some e \<Rightarrow> in_dict (ent_type e) IFC_TO_BOT_ELEMENT)"

text \<open>The instance identifier \<^verbatim>\<open>f"ex:inst_{id}"\<close>.\<close>

definition inst :: "int \<Rightarrow> string" where
  "inst i = ''ex:inst_'' @ str_int i"

text \<open>\<^verbatim>\<open>name.replace('"', '\\"')\<close>: every double quote gets a backslash in front.\<close>

fun replace_dquote :: "string \<Rightarrow> string" where
  "replace_dquote [] = []"
| "replace_dquote (c # cs) =
     (if c = dquote then backslash # dquote # replace_dquote cs else c # replace_dquote cs)"

definition quoted :: "string \<Rightarrow> string" where
  "quoted s = dquote # s @ [dquote]"

text \<open>Loop 4.1 over \<open>entities.items()\<close>, appending to \<open>triples\<close>.\<close>

fun entity_loop :: "entities \<Rightarrow> triple list \<Rightarrow> triple list" where
  "entity_loop [] triples = triples"
| "entity_loop ((eid, ent) # rest) triples =
     (case classify_ifc_entity ent of
        None \<Rightarrow> entity_loop rest triples
      | Some bot_cls \<Rightarrow>
          (let subj = inst eid;
               triples1 = triples @ [(subj, ''rdf:type'', bot_cls)];
               triples2 = (if name ent \<noteq> [] then
                             triples1 @ [(subj, ''rdfs:label'', quoted (replace_dquote (name ent)))]
                           else triples1)
           in entity_loop rest triples2))"

text \<open>The inner loops of 4.2 over \<open>zip(child_ids, children_curie)\<close>.\<close>

fun aggregates_loop :: "entities \<Rightarrow> int \<Rightarrow> string \<Rightarrow> (int \<times> string) list \<Rightarrow> triple list \<Rightarrow> triple list" where
  "aggregates_loop entities pid parent_curie [] triples = triples"
| "aggregates_loop entities pid parent_curie ((cid, child_curie) # rest) triples =
     aggregates_loop entities pid parent_curie rest
       (if is_zone_id entities pid \<and> is_zone_id entities cid then
          triples @ [(parent_curie, ''bot:containsZone'', child_curie)]
        else if is_element_id entities pid \<and> is_element_id entities cid then
          triples @ [(parent_curie, ''bot:hasSubElement'', child_curie)]
        else triples)"

fun contained_loop :: "entities \<Rightarrow> int \<Rightarrow> string \<Rightarrow> (int \<times> string) list \<Rightarrow> triple list \<Rightarrow> triple list" where
  "contained_loop entities pid parent_curie [] triples = triples"
| "contained_loop entities pid parent_curie ((cid, child_curie) # rest) triples =
     contained_loop entities pid parent_curie rest
       (if is_zone_id entities pid \<and> is_element_id entities cid then
          triples @ [(parent_curie, ''bot:containsElement'', child_curie)]
        else triples)"

text \<open>The symmetric branch shared in shape by connection and interference; the
  unpacking \<open>a_id, b_id = child_ids\<close> is guarded by the length test.\<close>

definition symmetric_pair :: "entities \<Rightarrow> string \<Rightarrow> int list \<Rightarrow> string list \<Rightarrow> triple list \<Rightarrow> triple list" where
  "symmetric_pair entities prop cids children_curie triples =
     (if length cids = 2 then
        (case (cids, children_curie) of
           ([a_id, b_id], [a, b]) \<Rightarrow>
             (if is_element_id entities a_id \<and> is_element_id entities b_id then
                triples @ [(a, prop, b)] @ [(b, prop, a)]
              else triples)
         | _ \<Rightarrow> triples)
      else triples)"

text \<open>One iteration of loop 4.2.\<close>

definition rel_step :: "entities \<Rightarrow> triple list \<Rightarrow> IfcRelationship \<Rightarrow> triple list" where
  "rel_step entities triples rel =
     (let pid = parent_id rel;
          cids = child_ids rel;
          parent_curie = inst pid;
          children_curie = map inst cids
      in if rel_type rel = ''IFCRELAGGREGATES'' then
           aggregates_loop entities pid parent_curie (zip cids children_curie) triples
         else if rel_type rel = ''IFCRELCONTAINEDINSPATIALSTRUCTURE'' then
           contained_loop entities pid parent_curie (zip cids children_curie) triples
         else if rel_type rel = ''IFCRELCONNECTSELEMENTS'' then
           symmetric_pair entities ''bot:adjacentElement'' cids children_curie triples
         else if rel_type rel = ''IFCRELINTERFERESELEMENTS'' then
           symmetric_pair entities ''bot:intersectingElement'' cids children_curie triples
         else triples)"

definition ifc_to_bot_triples :: "entities \<Rightarrow> IfcRelationship list \<Rightarrow> triple list" where
  "ifc_to_bot_triples entities relationships =
     foldl (rel_step entities) (entity_loop entities []) relationships"


section \<open>The mapping rules in the specification's terms\<close>

text \<open>
  An id classifies as a zone, as an element, or as neither.  The rules below restate the
  relationship disambiguation over this classification; the theorems relate them to the
  loops of \<open>ifc_to_bot_triples\<close>.
\<close>

datatype classification = Zone | Element | Neither

definition classification_of :: "entities \<Rightarrow> int \<Rightarrow> classification" where
  "classification_of entities i =
     (if is_zone_id entities i then Zone
      else if is_element_id entities i then Element else Neither)"

fun aggregation_rule :: "classification \<Rightarrow> classification \<Rightarrow> string option" where
  "aggregation_rule Zone Zone = Some ''bot:containsZone''"
| "aggregation_rule Element Element = Some ''bot:hasSubElement''"
| "aggregation_rule _ _ = None"

definition aggregation_pair :: "entities \<Rightarrow> int \<Rightarrow> int \<Rightarrow> triple list" where
  "aggregation_pair entities p c =
     (case aggregation_rule (classification_of entities p) (classification_of entities c) of
        Some prop \<Rightarrow> [(inst p, prop, inst c)]
      | None \<Rightarrow> [])"

definition relationship_triples :: "entities \<Rightarrow> IfcRelationship list \<Rightarrow> triple list" where
  "relationship_triples entities rels = foldl (rel_step entities) [] rels"

text \<open>The symmetric rule of the connection and interference relations.\<close>

definition symmetric_rule :: "entities \<Rightarrow> string \<Rightarrow> int list \<Rightarrow> triple list" where
  "symmetric_rule entities prop cids =
     (case cids of
        [a, b] \<Rightarrow>
          (if classification_of entities a = Element \<and> classification_of entities b = Element
           then [(inst a, prop, inst b), (inst b, prop, inst a)] else [])
      | _ \<Rightarrow> [])"

text \<open>What one entry of the entity dictionary contributes.\<close>

definition entity_triples :: "int \<times> IfcEntity \<Rightarrow> triple list" where
  "entity_triples p =
     (case classify_ifc_entity (snd p) of
        None \<Rightarrow> []
      | Some c \<Rightarrow>
          (inst (fst p), ''rdf:type'', c) #
          (if name (snd p) \<noteq> [] then
             [(inst (fst p), ''rdfs:label'', quoted (replace_dquote (name (snd p))))]
           else []))"

text \<open>The shape of every triple that comes from a relationship: both endpoints are
  classified entities and the predicate is one of the five object properties.\<close>

definition rel_props :: "string set" where
  "rel_props = {''bot:containsZone'', ''bot:hasSubElement'', ''bot:containsElement'',
                ''bot:adjacentElement'', ''bot:intersectingElement''}"

definition known :: "entities \<Rightarrow> int \<Rightarrow> bool" where
  "known E i = (is_zone_id E i \<or> is_element_id E i)"

definition rel_triple_ok :: "entities \<Rightarrow> triple \<Rightarrow> bool" where
  "rel_triple_ok E t = (\<exists>a b. known E a \<and> known E b \<and> fst t = inst a \<and> snd (snd t) = inst b
                          \<and> fst (snd t) \<in> rel_props)"

text \<open>A small entity dictionary used by the examples.\<close>

definition ex_entities :: entities where
  "ex_entities =
     [(10, new_IfcEntity 10 ''IFCBUILDING'' ''Main'' ''G1''),
      (20, new_IfcEntity 20 ''IFCBUILDINGSTOREY'' ''L1'' ''G2''),
      (30, new_IfcEntity 30 ''IFCWALL'' '''' ''G3''),
      (40, new_IfcEntity 40 ''IFCSLAB'' ''S'' ''G4''),
      (1, new_IfcEntity 1 ''IFCPROJECT'' ''P'' ''G0'')]"

section \<open>The serializer\<close>

text \<open>\<^verbatim>\<open>"\n".join(lines)\<close>.\<close>

fun join :: "string \<Rightarrow> string list \<Rightarrow> string" where
  "join sep [] = []"
| "join sep [x] = x"
| "join sep (x # y # ys) = x @ sep @ join sep (y # ys)"

definition prefix_lines :: "string list" where
  "prefix_lines =
     [''@prefix rdf:  <http://www.w3.org/1999/02/22-rdf-syntax-ns#> .'',
      ''@prefix rdfs: <http://www.w3.org/2000/01/rdf-schema#> .'',
      ''@prefix bot:  <https://w3id.org/bot#> .'',
      ''@prefix ex:   <http://example.com/instances#> .'']"

text \<open>
  \<open>by_subject\<close> is a \<^verbatim>\<open>defaultdict(list)\<close>, kept as an association list in insertion
  order.  \<^verbatim>\<open>by_subject[s].append((p, o))\<close> reads the list of \<open>s\<close> (the empty list when
  \<open>s\<close> is new, which also enters \<open>s\<close> as the last key) and extends it in place.
\<close>

type_synonym by_subject = "(string \<times> (string \<times> string) list) list"

definition by_subject_append :: "by_subject \<Rightarrow> triple \<Rightarrow> by_subject" where
  "by_subject_append d t =
     (case t of (s, p, ob) \<Rightarrow>
        AList.update s ((case map_of d s of None \<Rightarrow> [] | Some props \<Rightarrow> props) @ [(p, ob)]) d)"

definition group_by_subject :: "triple list \<Rightarrow> by_subject" where
  "group_by_subject triples = foldl by_subject_append [] triples"

text \<open>The inner loop over \<open>enumerate(props)\<close>; \<open>n\<close> is \<open>len(props)\<close>.\<close>

fun props_loop :: "int \<Rightarrow> int \<Rightarrow> (string \<times> string) list \<Rightarrow> string list \<Rightarrow> string list" where
  "props_loop i n [] lines = lines"
| "props_loop i n ((p, ob) # rest) lines =
     (let sep = (if i < n - 1 then '' ;'' else '' .'')
      in props_loop (i + 1) n rest (lines @ [''    '' @ p @ '' '' @ ob @ sep]))"

fun subjects_loop :: "by_subject \<Rightarrow> string list \<Rightarrow> string list" where
  "subjects_loop [] lines = lines"
| "subjects_loop ((subj, props) # rest) lines =
     (let lines1 = lines @ [subj];
          lines2 = props_loop 0 (int (length props)) props lines1;
          lines3 = lines2 @ ['''']
      in subjects_loop rest lines3)"

definition triples_to_ttl :: "triple list \<Rightarrow> string" where
  "triples_to_ttl triples =
     (let lines = prefix_lines @ [''''];
          by_subject = group_by_subject triples
      in join [newline] (subjects_loop by_subject lines))"

subsection \<open>The output format in the specification's terms\<close>

text \<open>The distinct elements of a list in the order of their first appearance.\<close>

fun first_appearance :: "'a list \<Rightarrow> 'a list" where
  "first_appearance [] = []"
| "first_appearance (x # xs) = x # removeAll x (first_appearance xs)"

text \<open>The predicate and object pairs of a subject, in the order of the input, duplicates
  kept.\<close>

definition pairs_of :: "string \<Rightarrow> triple list \<Rightarrow> (string \<times> string) list" where
  "pairs_of s triples = map snd (filter (\<lambda>t. fst t = s) triples)"

definition pair_line :: "string \<Rightarrow> string \<times> string \<Rightarrow> string" where
  "pair_line sep po = ''    '' @ fst po @ '' '' @ snd po @ sep"

text \<open>A stanza: the subject, its pairs with \<open>;\<close> after each but the last and \<open>.\<close> after the
  last, and an empty line.\<close>

definition stanza :: "string \<Rightarrow> (string \<times> string) list \<Rightarrow> string list" where
  "stanza s props =
     [s] @ map (pair_line '' ;'') (butlast props)
     @ (if props = [] then [] else [pair_line '' .'' (last props)]) @ ['''']"

definition ttl_document :: "triple list \<Rightarrow> string" where
  "ttl_document triples =
     join [newline]
       (prefix_lines @ [''''] @
        concat (map (\<lambda>s. stanza s (pairs_of s triples)) (first_appearance (map fst triples))))"

text \<open>The grouping the serializer builds: each subject with its pairs.\<close>

definition grouped :: "triple list \<Rightarrow> by_subject" where
  "grouped ts = map (\<lambda>s. (s, pairs_of s ts)) (first_appearance (map fst ts))"

section \<open>Step 3: the record parser\<close>

text \<open>
  The regular expressions are modelled by the matcher they denote.  A literal character
  consumes one character or fails; a starred class consumes the longest run of the class.
  In each pattern of this program the character after a starred class is outside the
  class, so the longest run is the only one a successful match can take and the
  backtracking matcher of the library finds nothing else.
\<close>

definition lit :: "char \<Rightarrow> string \<Rightarrow> string option" where
  "lit c s = (case s of [] \<Rightarrow> None | x # r \<Rightarrow> if x = c then Some r else None)"

text \<open>\<^verbatim>\<open>re.match(r"'([^']*)'\s*,\s*'([^']*)'", args_str)\<close>, anchored at the start of the
  argument text; the result is the two groups.\<close>

definition m_args :: "string \<Rightarrow> (string \<times> string) option" where
  "m_args args_str =
     (case lit squote args_str of None \<Rightarrow> None
      | Some r1 \<Rightarrow>
     (case lit squote (dropWhile (\<lambda>c. c \<noteq> squote) r1) of None \<Rightarrow> None
      | Some r2 \<Rightarrow>
     (case lit (CHR '','') (dropWhile is_space r2) of None \<Rightarrow> None
      | Some r3 \<Rightarrow>
     (case lit squote (dropWhile is_space r3) of None \<Rightarrow> None
      | Some r4 \<Rightarrow>
     (case lit squote (dropWhile (\<lambda>c. c \<noteq> squote) r4) of None \<Rightarrow> None
      | Some r5 \<Rightarrow>
          Some (takeWhile (\<lambda>c. c \<noteq> squote) r1, takeWhile (\<lambda>c. c \<noteq> squote) r4))))))"

text \<open>The pair (global_id, name) read from the match, empty strings without a match.\<close>

definition entity_fields :: "string \<Rightarrow> string \<times> string" where
  "entity_fields args_str =
     (let m = m_args args_str;
          gid = (case m of Some (g, n) \<Rightarrow> g | None \<Rightarrow> []);
          nm = (case m of Some (g, n) \<Rightarrow> n | None \<Rightarrow> [])
      in (gid, nm))"

text \<open>\<^verbatim>\<open>re.findall(r"#(\d+)", args_str)\<close>: the digit runs that follow a \<open>#\<close>, left to
  right; the search resumes after each match.\<close>

function findall_refs :: "string \<Rightarrow> string list" where
  "findall_refs [] = []"
| "findall_refs (c # cs) =
     (if c = CHR ''#'' \<and> takeWhile is_digit cs \<noteq> [] then
        takeWhile is_digit cs # findall_refs (dropWhile is_digit cs)
      else findall_refs cs)"
  by pat_completeness auto
termination
  by (relation "measure length") (auto simp: length_dropWhile_le less_Suc_eq_le)

type_synonym raw_record = "int \<times> string \<times> string"

text \<open>One iteration of the loop over the selected lines; the state is the pair
  (entities, relationships).  \<open>entities[ent_id] = ...\<close> replaces the value of a key that
  is present, in place, and enters a new key last.\<close>

definition parse_line :: "entities \<times> IfcRelationship list \<Rightarrow> raw_record \<Rightarrow> entities \<times> IfcRelationship list" where
  "parse_line st line =
     (case st of (entities, relationships) \<Rightarrow>
      case line of (eid, etype, args_str) \<Rightarrow>
        if in_dict etype IFC_TO_BOT_ZONE \<or> in_dict etype IFC_TO_BOT_ELEMENT \<or> etype = ''IFCPROJECT'' then
          (case entity_fields args_str of (gid, nm) \<Rightarrow>
             (AList.update eid (new_IfcEntity eid etype nm gid) entities, relationships))
        else if in_dict etype IFC_REL_TO_BOT_PROP then
          (let nums = findall_refs args_str in
           if length nums \<ge> 2 then
             (let parent = int_of_str (nums ! 0);
                  children = map int_of_str (drop 1 nums)
              in (entities, relationships @ [new_IfcRelationship eid etype parent children]))
           else (entities, relationships))
        else (entities, relationships))"

definition parse_selected_ifc_lines :: "raw_record list \<Rightarrow> entities \<times> IfcRelationship list" where
  "parse_selected_ifc_lines lines = foldl parse_line ([], []) lines"

subsection \<open>The extraction rules in the specification's terms\<close>

text \<open>A reference starts at every position that holds \<open>#\<close> and is followed by a digit; it
  denotes the digits that follow, up to the first character that is not a digit.\<close>

definition reference_at :: "string \<Rightarrow> nat \<Rightarrow> bool" where
  "reference_at s i = (Suc i < length s \<and> s ! i = CHR ''#'' \<and> is_digit (s ! Suc i))"

definition references :: "string \<Rightarrow> string list" where
  "references s =
     map (\<lambda>i. takeWhile is_digit (drop (Suc i) s)) (filter (reference_at s) [0..<length s])"

text \<open>What a record contributes to the relationship sequence.\<close>

definition is_relation_type :: "string \<Rightarrow> bool" where
  "is_relation_type t = in_dict t IFC_REL_TO_BOT_PROP"

definition is_entity_type :: "string \<Rightarrow> bool" where
  "is_entity_type t = (in_dict t IFC_TO_BOT_ZONE \<or> in_dict t IFC_TO_BOT_ELEMENT \<or> t = ''IFCPROJECT'')"

definition relationship_of :: "raw_record \<Rightarrow> IfcRelationship list" where
  "relationship_of line =
     (case line of (i, t, args_str) \<Rightarrow>
        if is_relation_type t then
          (case map int_of_str (references args_str) of
             p # c # cs \<Rightarrow> [\<lparr>rel_id = i, rel_type = t, parent_id = p, child_ids = c # cs\<rparr>]
           | _ \<Rightarrow> [])
        else [])"

text \<open>The entity a record of an entity type denotes.\<close>

definition entity_of :: "raw_record \<Rightarrow> IfcEntity" where
  "entity_of line =
     (case line of (i, t, args_str) \<Rightarrow>
        \<lparr>ent_id = i, ent_type = t, name = snd (entity_fields args_str),
         global_id = fst (entity_fields args_str)\<rparr>)"

text \<open>The entity records with a given id, in sequence order.\<close>

definition entity_records :: "int \<Rightarrow> raw_record list \<Rightarrow> raw_record list" where
  "entity_records k lines = filter (\<lambda>l. fst l = k \<and> is_entity_type (fst (snd l))) lines"

text \<open>The single-quoted literals of a text, left to right: a literal runs from a quote to
  the next quote.\<close>

function quoted_literals :: "string \<Rightarrow> string list" where
  "quoted_literals [] = []"
| "quoted_literals (c # cs) =
     (if c = squote then
        (case dropWhile (\<lambda>x. x \<noteq> squote) cs of
           [] \<Rightarrow> []
         | q # rest \<Rightarrow> takeWhile (\<lambda>x. x \<noteq> squote) cs # quoted_literals rest)
      else quoted_literals cs)"
  by pat_completeness auto
termination
proof (relation "measure length", goal_cases)
  case 1
  show ?case by simp
next
  case (2 c cs q rest)
  have "length (dropWhile (\<lambda>x. x \<noteq> squote) cs) \<le> length cs" by (rule length_dropWhile_le)
  with 2 show ?case by simp
next
  case 3
  then show ?case by simp
qed

text \<open>The reading of the argument text that takes the first two literals wherever they
  stand.\<close>

definition first_two_literals :: "string \<Rightarrow> string \<times> string" where
  "first_two_literals args_str =
     (case quoted_literals args_str of g # n # rest \<Rightarrow> (g, n) | _ \<Rightarrow> ([], []))"

text \<open>The shape the anchored pattern accepts: the text begins with a literal, optional
  white space, a comma, optional white space and a second literal.\<close>

definition leading_pair :: "string \<Rightarrow> string \<Rightarrow> string \<Rightarrow> bool" where
  "leading_pair args_str g n =
     (\<exists>ws1 ws2 rest.
        args_str = [squote] @ g @ [squote] @ ws1 @ '','' @ ws2 @ [squote] @ n @ [squote] @ rest
        \<and> squote \<notin> set g \<and> squote \<notin> set n
        \<and> list_all is_space ws1 \<and> list_all is_space ws2)"

text \<open>A literal between single quotes, for the examples.\<close>

definition sq :: "string \<Rightarrow> string" where
  "sq s = [squote] @ s @ [squote]"

section \<open>Step 2: the record selector\<close>

text \<open>
  The pattern is \<^verbatim>\<open>#(\d+)\s*=\s*(\w+)\s*\((.*?)\);\<close> with the flags IGNORECASE and
  DOTALL.  None of its literal characters has another case, so IGNORECASE changes nothing
  on the modelled alphabet; DOTALL lets the lazy group run over line ends.  The lazy group
  followed by \<^verbatim>\<open>\);\<close> stops at the first \<open>);\<close>: \<open>split_close\<close> returns the text
  before it and the text after it.
\<close>

fun split_close :: "string \<Rightarrow> (string \<times> string) option" where
  "split_close (c # d # cs) =
     (if c = CHR '')'' \<and> d = CHR '';'' then Some ([], cs)
      else (case split_close (d # cs) of
              None \<Rightarrow> None
            | Some (a, r) \<Rightarrow> Some (c # a, r)))"
| "split_close _ = None"

text \<open>One attempt to match the pattern at the start of a text: the three groups and the
  text after the match.\<close>

definition match_record :: "string \<Rightarrow> ((string \<times> string \<times> string) \<times> string) option" where
  "match_record s =
     (case lit (CHR ''#'') s of None \<Rightarrow> None
      | Some r1 \<Rightarrow>
     (if takeWhile is_digit r1 = [] then None
      else
     (case lit (CHR ''='') (dropWhile is_space (dropWhile is_digit r1)) of None \<Rightarrow> None
      | Some r2 \<Rightarrow>
     (if takeWhile is_word (dropWhile is_space r2) = [] then None
      else
     (case lit (CHR ''('') (dropWhile is_space (dropWhile is_word (dropWhile is_space r2))) of
        None \<Rightarrow> None
      | Some r3 \<Rightarrow>
     (case split_close r3 of None \<Rightarrow> None
      | Some (args, rest) \<Rightarrow>
          Some ((takeWhile is_digit r1, takeWhile is_word (dropWhile is_space r2), args), rest)))))))"

text \<open>\<open>pattern.finditer\<close>: the text is scanned from the left; a match is reported and the
  scan resumes after it; where the pattern does not match, the scan moves one character
  on.\<close>

function finditer :: "string \<Rightarrow> (string \<times> string \<times> string) list" where
  "finditer [] = []"
| "finditer (c # cs) =
     (case match_record (c # cs) of
        Some (groups, rest) \<Rightarrow> groups # finditer rest
      | None \<Rightarrow> finditer cs)"
  by pat_completeness auto
termination
proof (relation "measure length", goal_cases)
  case 1
  show ?case by simp
next
  case (2 c cs)
  show ?case by simp
next
  case (3 c cs x groups rest)
  have sc: "split_close s = Some (a, r) \<Longrightarrow> length r < length s" for s a r
    by (induction s arbitrary: a rule: split_close.induct)
       (auto split: if_splits option.splits)
  have dw: "length (dropWhile P s) \<le> length s" for P and s :: string
    by (rule length_dropWhile_le)
  from 3 have m: "match_record (c # cs) = Some (groups, rest)" by simp
  then obtain r1 r2 r3 a where
    1: "lit (CHR ''#'') (c # cs) = Some r1"
    and 2: "lit (CHR ''='') (dropWhile is_space (dropWhile is_digit r1)) = Some r2"
    and 3: "lit (CHR ''('') (dropWhile is_space (dropWhile is_word (dropWhile is_space r2))) = Some r3"
    and 4: "split_close r3 = Some (a, rest)"
    unfolding match_record_def by (auto split: option.splits if_splits)
  from 1 have l1: "length r1 < length (c # cs)"
    by (auto simp: lit_def split: if_splits)
  from 2 have "length r2 < length (dropWhile is_space (dropWhile is_digit r1))"
    by (auto simp: lit_def split: list.splits if_splits)
  with dw[of is_space "dropWhile is_digit r1"] dw[of is_digit r1]
  have l2: "length r2 < length r1" by linarith
  from 3 have "length r3 < length (dropWhile is_space (dropWhile is_word (dropWhile is_space r2)))"
    by (auto simp: lit_def split: list.splits if_splits)
  with dw[of is_space "dropWhile is_word (dropWhile is_space r2)"]
    dw[of is_word "dropWhile is_space r2"] dw[of is_space r2]
  have l3: "length r3 < length r2" by linarith
  from sc[OF 4] l1 l2 l3 show ?case by simp
qed

text \<open>The body of the loop over the matches, and the selector.\<close>

definition scan_step :: "raw_record list \<Rightarrow> string \<times> string \<times> string \<Rightarrow> raw_record list" where
  "scan_step results m =
     (case m of (ent_id_str, ent_type_raw, args_str) \<Rightarrow>
        (let eid = int_of_str ent_id_str;
             etype = upper ent_type_raw
         in if etype \<in> IFC_TYPES_OF_INTEREST then results @ [(eid, etype, args_str)]
            else results))"

definition scan_ifc_and_extract_lines :: "string \<Rightarrow> raw_record list" where
  "scan_ifc_and_extract_lines ifc_text = foldl scan_step [] (finditer ifc_text)"

subsection \<open>The record shape in the specification's terms\<close>

text \<open>Whether \<open>);\<close> occurs in a text.\<close>

fun contains_close :: "string \<Rightarrow> bool" where
  "contains_close (c # d # cs) = (c = CHR '')'' \<and> d = CHR '';'' \<or> contains_close (d # cs))"
| "contains_close _ = False"

text \<open>
  A text begins with a record of the shape \<^verbatim>\<open>#<digits> = <IDENTIFIER>(<args>);\<close>:
  digits after the \<open>#\<close>, optional white space around the \<open>=\<close>, an identifier of word
  characters, optional white space, the arguments in parentheses, where the arguments end
  at the first \<open>);\<close>.
\<close>

definition record_shape :: "string \<Rightarrow> string \<Rightarrow> string \<Rightarrow> string \<Rightarrow> string \<Rightarrow> bool" where
  "record_shape s ds w args rest =
     (\<exists>ws1 ws2 ws3.
        s = ''#'' @ ds @ ws1 @ ''='' @ ws2 @ w @ ws3 @ ''('' @ args @ '');'' @ rest
        \<and> ds \<noteq> [] \<and> list_all is_digit ds
        \<and> w \<noteq> [] \<and> list_all is_word w
        \<and> list_all is_space ws1 \<and> list_all is_space ws2 \<and> list_all is_space ws3
        \<and> \<not> contains_close (args @ '')''))"

text \<open>The triple the selector stores for a match, and the test it applies.\<close>

definition record_of :: "string \<times> string \<times> string \<Rightarrow> raw_record" where
  "record_of m = (case m of (ds, w, args) \<Rightarrow> (int_of_str ds, upper w, args))"

definition of_interest :: "string \<times> string \<times> string \<Rightarrow> bool" where
  "of_interest m = (case m of (ds, w, args) \<Rightarrow> upper w \<in> IFC_TYPES_OF_INTEREST)"

text \<open>
  The reading of the selector's contract that takes every record of the shape, wherever it
  starts in the text, in source order.
\<close>

definition records_of_shape :: "string \<Rightarrow> raw_record list" where
  "records_of_shape ifc_text =
     concat (map (\<lambda>i. case match_record (drop i ifc_text) of
                         None \<Rightarrow> []
                       | Some (m, rest) \<Rightarrow> if of_interest m then [record_of m] else [])
                 [0..<length ifc_text])"


section \<open>Decimal identifiers\<close>

text \<open>\<open>int\<close> reads back what \<open>str\<close> writes, so instance identifiers of different
  ids differ.\<close>

lemma int_of_str_snoc: "int_of_str (s @ [c]) = 10 * int_of_str s + digit_val c"
  by (simp add: int_of_str_def)

lemma digit_val_char_of: "d < 10 \<Longrightarrow> digit_val (char_of (48 + d)) = int d"
  by (simp add: digit_val_def)

lemma int_of_str_single: "int_of_str [c] = digit_val c"
  by (simp add: int_of_str_def)

lemma int_of_str_str_nat: "int_of_str (str_nat n) = int n"
proof (induction n rule: str_nat.induct)
  case (1 n)
  show ?case
  proof (cases "n < 10")
    case True
    then show ?thesis by (subst str_nat.simps) (simp add: int_of_str_single digit_val_char_of)
  next
    case False
    have "int_of_str (str_nat n) = 10 * int_of_str (str_nat (n div 10)) + digit_val (char_of (48 + n mod 10))"
      using False by (subst str_nat.simps) (simp add: int_of_str_snoc)
    also have "\<dots> = 10 * int (n div 10) + int (n mod 10)"
      using 1 False by (simp add: digit_val_char_of)
    also have "\<dots> = int n" by presburger
    finally show ?thesis .
  qed
qed

lemma str_nat_digits: "c \<in> set (str_nat n) \<Longrightarrow> is_digit c"
proof (induction n rule: str_nat.induct)
  case (1 n)
  show ?case
  proof (cases "n < 10")
    case True
    with 1(2) show ?thesis by (subst (asm) str_nat.simps) (simp add: is_digit_def)
  next
    case False
    have d: "is_digit (char_of (48 + n mod 10))"
      by (simp add: is_digit_def)
    from 1(2) False have "c \<in> set (str_nat (n div 10)) \<or> c = char_of (48 + n mod 10)"
      by (subst (asm) str_nat.simps) auto
    with 1(1) False d show ?thesis by auto
  qed
qed

lemma str_nat_nonempty: "str_nat n \<noteq> []"
  by (subst str_nat.simps) simp

lemma str_nat_inj: "str_nat m = str_nat n \<Longrightarrow> m = n"
  by (metis int_of_str_str_nat of_nat_eq_iff)

lemma str_nat_no_minus: "str_nat n \<noteq> CHR ''-'' # s"
proof
  assume "str_nat n = CHR ''-'' # s"
  then have "CHR ''-'' \<in> set (str_nat n)" by simp
  then have "is_digit (CHR ''-'')" by (rule str_nat_digits)
  then show False by (simp add: is_digit_def)
qed

lemma str_int_inj:
  assumes "str_int i = str_int j"
  shows "i = j"
proof (cases "i < 0")
  case True
  note i = this
  show ?thesis
  proof (cases "j < 0")
    case True
    with i assms have "str_nat (nat (- i)) = str_nat (nat (- j))" by (simp add: str_int_def)
    then have "nat (- i) = nat (- j)" by (rule str_nat_inj)
    with i True show ?thesis by simp
  next
    case False
    with i assms have "str_nat (nat j) = CHR ''-'' # str_nat (nat (- i))" by (simp add: str_int_def)
    then show ?thesis by (simp add: str_nat_no_minus)
  qed
next
  case False
  note i = this
  show ?thesis
  proof (cases "j < 0")
    case True
    with i assms have "str_nat (nat i) = CHR ''-'' # str_nat (nat (- j))" by (simp add: str_int_def)
    then show ?thesis by (simp add: str_nat_no_minus)
  next
    case False
    with i assms have "str_nat (nat i) = str_nat (nat j)" by (simp add: str_int_def)
    then have "nat i = nat j" by (rule str_nat_inj)
    with i False show ?thesis by simp
  qed
qed

lemma inst_inj: "inst i = inst j \<longleftrightarrow> i = j"
  by (auto simp: inst_def dest: str_int_inj)

section \<open>The mapping engine\<close>

subsection \<open>The loops append to the accumulator\<close>

lemma zone_element_disjoint: "\<not> (in_dict t IFC_TO_BOT_ZONE \<and> in_dict t IFC_TO_BOT_ELEMENT)"
  by (auto simp: in_dict_def IFC_TO_BOT_ZONE_def IFC_TO_BOT_ELEMENT_def)

lemma not_zone_and_element: "is_zone_id E i \<Longrightarrow> \<not> is_element_id E i"
  using zone_element_disjoint
  by (auto simp: is_zone_id_def is_element_id_def split: option.splits)

lemma aggregates_loop_acc:
  "aggregates_loop E p pc xs acc = acc @ aggregates_loop E p pc xs []"
proof (induction xs arbitrary: acc)
  case Nil
  show ?case by simp
next
  case (Cons x xs)
  obtain cid cc where x: "x = (cid, cc)" by (cases x)
  show ?case
    unfolding x aggregates_loop.simps
    by (subst Cons.IH, subst (2) Cons.IH) simp
qed

lemma contained_loop_acc:
  "contained_loop E p pc xs acc = acc @ contained_loop E p pc xs []"
proof (induction xs arbitrary: acc)
  case Nil
  show ?case by simp
next
  case (Cons x xs)
  obtain cid cc where x: "x = (cid, cc)" by (cases x)
  show ?case
    unfolding x contained_loop.simps
    by (subst Cons.IH, subst (2) Cons.IH) simp
qed

lemma symmetric_pair_acc:
  "symmetric_pair E prop cids cc acc = acc @ symmetric_pair E prop cids cc []"
  by (auto simp: symmetric_pair_def split: list.splits)

lemma rel_step_acc: "rel_step E acc rel = acc @ rel_step E [] rel"
  unfolding rel_step_def Let_def
  using aggregates_loop_acc[of E _ _ _ acc] contained_loop_acc[of E _ _ _ acc]
    symmetric_pair_acc[of E _ _ _ acc]
  by simp

lemma foldl_rel_step: "foldl (rel_step E) acc rels = acc @ foldl (rel_step E) [] rels"
proof (induction rels arbitrary: acc)
  case Nil
  show ?case by simp
next
  case (Cons r rels)
  have "foldl (rel_step E) acc (r # rels) = foldl (rel_step E) (rel_step E acc r) rels" by simp
  also have "\<dots> = rel_step E acc r @ foldl (rel_step E) [] rels" by (rule Cons.IH)
  also have "\<dots> = acc @ rel_step E [] r @ foldl (rel_step E) [] rels"
    by (subst rel_step_acc) simp
  also have "rel_step E [] r @ foldl (rel_step E) [] rels = foldl (rel_step E) (rel_step E [] r) rels"
    by (rule Cons.IH[symmetric])
  finally show ?case by simp
qed

lemma engine_split:
  "ifc_to_bot_triples E (rs1 @ rel # rs2) =
     ifc_to_bot_triples E rs1 @ rel_step E [] rel @ relationship_triples E rs2"
proof -
  have "ifc_to_bot_triples E (rs1 @ rel # rs2) =
          foldl (rel_step E) (rel_step E (ifc_to_bot_triples E rs1) rel) rs2"
    by (simp add: ifc_to_bot_triples_def)
  also have "\<dots> = rel_step E (ifc_to_bot_triples E rs1) rel @ foldl (rel_step E) [] rs2"
    by (rule foldl_rel_step)
  also have "rel_step E (ifc_to_bot_triples E rs1) rel = ifc_to_bot_triples E rs1 @ rel_step E [] rel"
    by (rule rel_step_acc)
  finally show ?thesis by (simp add: relationship_triples_def)
qed

lemma aggregates_loop_spec:
  "aggregates_loop E p (inst p) (zip cids (map inst cids)) [] =
     concat (map (aggregation_pair E p) cids)"
proof (induction cids)
  case Nil
  show ?case by simp
next
  case (Cons c cids)
  have step: "aggregates_loop E p (inst p) [(c, inst c)] [] = aggregation_pair E p c"
    using not_zone_and_element[of E p] not_zone_and_element[of E c]
    by (auto simp: aggregation_pair_def classification_of_def)
  have "aggregates_loop E p (inst p) (zip (c # cids) (map inst (c # cids))) [] =
          aggregates_loop E p (inst p) (zip cids (map inst cids))
            (aggregates_loop E p (inst p) [(c, inst c)] [])"
    by simp
  also have "\<dots> = aggregation_pair E p c @ aggregates_loop E p (inst p) (zip cids (map inst cids)) []"
    by (subst aggregates_loop_acc) (simp only: step)
  finally show ?case using Cons.IH by simp
qed

lemma classification_Element: "classification_of E i = Element \<longleftrightarrow> is_element_id E i"
  using not_zone_and_element[of E i] by (auto simp: classification_of_def)

lemma classification_Zone: "classification_of E i = Zone \<longleftrightarrow> is_zone_id E i"
  by (auto simp: classification_of_def)

lemma symmetric_pair_spec:
  "symmetric_pair E prop cids (map inst cids) [] = symmetric_rule E prop cids"
  by (auto simp: symmetric_pair_def symmetric_rule_def classification_Element split: list.splits)

lemma entity_loop_acc: "entity_loop E acc = acc @ concat (map entity_triples E)"
proof (induction E arbitrary: acc)
  case Nil
  show ?case by simp
next
  case (Cons p E)
  obtain k e where p: "p = (k, e)" by (cases p)
  show ?case
    unfolding p by (simp add: Cons.IH entity_triples_def Let_def split: option.splits)
qed

lemma engine_parts:
  "ifc_to_bot_triples E rels = concat (map entity_triples E) @ relationship_triples E rels"
  unfolding ifc_to_bot_triples_def relationship_triples_def
  by (subst foldl_rel_step) (simp add: entity_loop_acc)

lemma aggregates_loop_ok:
  "\<forall>t \<in> set acc. rel_triple_ok E t \<Longrightarrow>
   \<forall>t \<in> set (aggregates_loop E p (inst p) (zip cids (map inst cids)) acc). rel_triple_ok E t"
proof (induction cids arbitrary: acc)
  case Nil
  then show ?case by simp
next
  case (Cons c cids)
  show ?case
    unfolding list.map zip_Cons_Cons aggregates_loop.simps
    by (rule Cons.IH) (use Cons.prems in \<open>auto simp: rel_triple_ok_def known_def rel_props_def\<close>)
qed

lemma contained_loop_ok:
  "\<forall>t \<in> set acc. rel_triple_ok E t \<Longrightarrow>
   \<forall>t \<in> set (contained_loop E p (inst p) (zip cids (map inst cids)) acc). rel_triple_ok E t"
proof (induction cids arbitrary: acc)
  case Nil
  then show ?case by simp
next
  case (Cons c cids)
  show ?case
    unfolding list.map zip_Cons_Cons contained_loop.simps
    by (rule Cons.IH) (use Cons.prems in \<open>auto simp: rel_triple_ok_def known_def rel_props_def\<close>)
qed

lemma symmetric_pair_ok:
  assumes "prop \<in> rel_props"
  shows "\<forall>t \<in> set (symmetric_pair E prop cids (map inst cids) []). rel_triple_ok E t"
proof (cases "\<exists>a b. cids = [a, b] \<and> is_element_id E a \<and> is_element_id E b")
  case True
  then obtain a b where "cids = [a, b]" "is_element_id E a" "is_element_id E b" by blast
  with assms show ?thesis
    by (auto simp: symmetric_pair_def rel_triple_ok_def known_def)
next
  case False
  then have "symmetric_pair E prop cids (map inst cids) [] = []"
    by (auto simp: symmetric_pair_def split: list.splits)
  then show ?thesis by simp
qed

lemma rel_step_ok: "\<forall>t \<in> set (rel_step E [] rel). rel_triple_ok E t"
proof -
  have a: "\<forall>t \<in> set (aggregates_loop E p (inst p) (zip cids (map inst cids)) []). rel_triple_ok E t" for p cids
    by (rule aggregates_loop_ok) simp
  have c: "\<forall>t \<in> set (contained_loop E p (inst p) (zip cids (map inst cids)) []). rel_triple_ok E t" for p cids
    by (rule contained_loop_ok) simp
  have s1: "\<forall>t \<in> set (symmetric_pair E ''bot:adjacentElement'' cids (map inst cids) []). rel_triple_ok E t" for cids
    by (rule symmetric_pair_ok) (simp add: rel_props_def)
  have s2: "\<forall>t \<in> set (symmetric_pair E ''bot:intersectingElement'' cids (map inst cids) []). rel_triple_ok E t" for cids
    by (rule symmetric_pair_ok) (simp add: rel_props_def)
  consider "rel_type rel = ''IFCRELAGGREGATES''"
    | "rel_type rel = ''IFCRELCONTAINEDINSPATIALSTRUCTURE''"
    | "rel_type rel = ''IFCRELCONNECTSELEMENTS''"
    | "rel_type rel = ''IFCRELINTERFERESELEMENTS''"
    | "rel_type rel \<notin> {''IFCRELAGGREGATES'', ''IFCRELCONTAINEDINSPATIALSTRUCTURE'',
         ''IFCRELCONNECTSELEMENTS'', ''IFCRELINTERFERESELEMENTS''}"
    by blast
  then show ?thesis
  proof cases
    case 1
    then have "rel_step E [] rel =
        aggregates_loop E (parent_id rel) (inst (parent_id rel)) (zip (child_ids rel) (map inst (child_ids rel))) []"
      by (simp add: rel_step_def Let_def)
    then show ?thesis by (metis a)
  next
    case 2
    then have "rel_step E [] rel =
        contained_loop E (parent_id rel) (inst (parent_id rel)) (zip (child_ids rel) (map inst (child_ids rel))) []"
      by (simp add: rel_step_def Let_def)
    then show ?thesis by (metis c)
  next
    case 3
    then have "rel_step E [] rel =
        symmetric_pair E ''bot:adjacentElement'' (child_ids rel) (map inst (child_ids rel)) []"
      by (simp add: rel_step_def Let_def)
    then show ?thesis by (metis s1)
  next
    case 4
    then have "rel_step E [] rel =
        symmetric_pair E ''bot:intersectingElement'' (child_ids rel) (map inst (child_ids rel)) []"
      by (simp add: rel_step_def Let_def)
    then show ?thesis by (metis s2)
  next
    case 5
    then have "rel_step E [] rel = []"
      by (simp add: rel_step_def Let_def)
    then show ?thesis by simp
  qed
qed

lemma relationship_triples_ok: "\<forall>t \<in> set (relationship_triples E rels). rel_triple_ok E t"
proof (induction rels)
  case Nil
  show ?case by (simp add: relationship_triples_def)
next
  case (Cons r rels)
  have "relationship_triples E (r # rels) = rel_step E [] r @ relationship_triples E rels"
    unfolding relationship_triples_def by (simp, subst foldl_rel_step, simp)
  with Cons rel_step_ok[of E r] show ?case by auto
qed

lemma entity_triples_subject: "t \<in> set (entity_triples (k, e)) \<Longrightarrow> fst t = inst k"
  by (auto simp: entity_triples_def split: option.splits if_splits)

lemma filter_entities_absent:
  "k \<notin> fst ` set E \<Longrightarrow> filter (\<lambda>t. fst t = inst k \<and> Q t) (concat (map entity_triples E)) = []"
proof (induction E)
  case Nil
  show ?case by simp
next
  case (Cons p E)
  obtain k' e' where p: "p = (k', e')" by (cases p)
  from Cons.prems p have ne: "k' \<noteq> k" and rest: "k \<notin> fst ` set E" by auto
  have "filter (\<lambda>t. fst t = inst k \<and> Q t) (entity_triples (k', e')) = []"
    using ne by (auto simp: filter_empty_conv inst_inj dest!: entity_triples_subject)
  with Cons.IH[OF rest] show ?case by (simp add: p)
qed

lemma filter_entities_present:
  "distinct (map fst E) \<Longrightarrow> (k, e) \<in> set E \<Longrightarrow>
   filter (\<lambda>t. fst t = inst k \<and> Q t) (concat (map entity_triples E)) = filter Q (entity_triples (k, e))"
proof (induction E)
  case Nil
  then show ?case by simp
next
  case (Cons p E)
  obtain k' e' where p: "p = (k', e')" by (cases p)
  show ?case
  proof (cases "k' = k")
    case True
    with Cons.prems p have e: "e' = e" and absent: "k \<notin> fst ` set E"
      by (auto simp: image_iff) 
    have "filter (\<lambda>t. fst t = inst k \<and> Q t) (entity_triples (k, e)) = filter Q (entity_triples (k, e))"
      by (rule filter_cong) (auto dest: entity_triples_subject)
    with filter_entities_absent[OF absent, of Q] show ?thesis by (simp add: p True e)
  next
    case False
    with Cons.prems p have d: "distinct (map fst E)" and m: "(k, e) \<in> set E" by auto
    have "filter (\<lambda>t. fst t = inst k \<and> Q t) (entity_triples (k', e')) = []"
      using False by (auto simp: filter_empty_conv inst_inj dest!: entity_triples_subject)
    with Cons.IH[OF d m] show ?thesis by (simp add: p)
  qed
qed

lemma filter_relationships_pred:
  assumes "q \<notin> rel_props"
  shows "filter (\<lambda>t. P t \<and> fst (snd t) = q) (relationship_triples E rels) = []"
  using relationship_triples_ok[of E rels] assms
  by (auto simp: filter_empty_conv rel_triple_ok_def)

lemma replace_dquote_concat:
  "replace_dquote s = concat (map (\<lambda>c. if c = dquote then [backslash, dquote] else [c]) s)"
  by (induction s) auto

lemma classify_values:
  "classify_ifc_entity e = Some c \<Longrightarrow>
     c \<in> {''bot:Site'', ''bot:Building'', ''bot:Storey'', ''bot:Space'', ''bot:Element''}"
  unfolding classify_ifc_entity_def
  by (auto split: if_splits dest!: map_of_SomeD simp: IFC_TO_BOT_ZONE_def IFC_TO_BOT_ELEMENT_def)

lemma classify_not_inst: "classify_ifc_entity e = Some c \<Longrightarrow> c \<noteq> inst x"
  by (drule classify_values) (auto simp: inst_def)

lemma quoted_not_inst: "quoted s \<noteq> inst x"
  by (simp add: quoted_def dquote_def inst_def)

lemma entity_triples_object:
  assumes "t \<in> set (entity_triples (k, e))"
  shows "snd (snd t) \<noteq> inst x"
proof (cases "classify_ifc_entity e")
  case None
  with assms show ?thesis by (simp add: entity_triples_def)
next
  case (Some c)
  with assms have "snd (snd t) = c \<or> snd (snd t) = quoted (replace_dquote (name e))"
    by (auto simp: entity_triples_def split: if_splits)
  with classify_not_inst[OF Some, of x] quoted_not_inst[of _ x] show ?thesis by metis
qed


subsection \<open>Aggregation relationships\<close>

text \<open>
  Claim C1.  For a relationship of type IFCRELAGGREGATES, wherever it stands in the
  relationship sequence, the engine appends for each child reference, in order, what the
  aggregation rule gives for the pair (parent, child): a \<open>bot:containsZone\<close> triple from
  parent to child when both classify as zones, a \<open>bot:hasSubElement\<close> triple from parent to
  child when both classify as elements, and nothing for any other combination.
\<close>

theorem aggregation_triples:
  assumes "rel_type rel = ''IFCRELAGGREGATES''"
  shows "ifc_to_bot_triples E (rs1 @ rel # rs2) =
           ifc_to_bot_triples E rs1
           @ concat (map (aggregation_pair E (parent_id rel)) (child_ids rel))
           @ relationship_triples E rs2"
proof -
  have "rel_step E [] rel = concat (map (aggregation_pair E (parent_id rel)) (child_ids rel))"
    using assms by (simp add: rel_step_def aggregates_loop_spec)
  then show ?thesis by (simp add: engine_split)
qed

text \<open>Building 10 aggregates storey 20 (zone and zone), wall 30 (zone and element) and the
  unknown id 99: only the first pair gives a triple.\<close>

theorem aggregation_triples_witness:
  "rel_type (new_IfcRelationship 100 ''IFCRELAGGREGATES'' 10 [20, 30, 99]) = ''IFCRELAGGREGATES''
   \<and> ifc_to_bot_triples ex_entities
        ([] @ new_IfcRelationship 100 ''IFCRELAGGREGATES'' 10 [20, 30, 99] # []) =
      ifc_to_bot_triples ex_entities [] @ [(''ex:inst_10'', ''bot:containsZone'', ''ex:inst_20'')]"
proof -
  have h: "rel_type (new_IfcRelationship 100 ''IFCRELAGGREGATES'' 10 [20, 30, 99]) = ''IFCRELAGGREGATES''"
    by code_simp
  have c: "concat (map (aggregation_pair ex_entities
                     (parent_id (new_IfcRelationship 100 ''IFCRELAGGREGATES'' 10 [20, 30, 99])))
             (child_ids (new_IfcRelationship 100 ''IFCRELAGGREGATES'' 10 [20, 30, 99])))
           = [(''ex:inst_10'', ''bot:containsZone'', ''ex:inst_20'')]"
    by code_simp
  show ?thesis
    using aggregation_triples[OF h, of ex_entities "[]" "[]"] h
    by (simp only: c relationship_triples_def foldl.simps append_Nil2 simp_thms)
qed

subsection \<open>Connection and interference relationships\<close>

text \<open>
  Claim C2.  For a relationship of type IFCRELCONNECTSELEMENTS (property
  \<open>bot:adjacentElement\<close>) or IFCRELINTERFERESELEMENTS (property \<open>bot:intersectingElement\<close>),
  the engine appends exactly the two triples a to b and b to a when the relationship has
  exactly two child references a, b and both classify as elements, and appends no triple
  when the child count is not 2 or a child is not an element.
\<close>

theorem symmetric_triples:
  assumes "rel_type rel = ''IFCRELCONNECTSELEMENTS'' \<and> prop = ''bot:adjacentElement''
         \<or> rel_type rel = ''IFCRELINTERFERESELEMENTS'' \<and> prop = ''bot:intersectingElement''"
  shows "ifc_to_bot_triples E (rs1 @ rel # rs2) =
           ifc_to_bot_triples E rs1 @ symmetric_rule E prop (child_ids rel) @ relationship_triples E rs2
         \<and> length (symmetric_rule E prop (child_ids rel)) =
             (if length (child_ids rel) = 2 \<and> (\<forall>c \<in> set (child_ids rel). classification_of E c = Element)
              then 2 else 0)"
proof -
  have "rel_step E [] rel = symmetric_rule E prop (child_ids rel)"
    using assms by (auto simp: rel_step_def symmetric_pair_spec)
  then have a: "ifc_to_bot_triples E (rs1 @ rel # rs2) =
           ifc_to_bot_triples E rs1 @ symmetric_rule E prop (child_ids rel) @ relationship_triples E rs2"
    by (simp add: engine_split)
  have b: "length (symmetric_rule E prop (child_ids rel)) =
             (if length (child_ids rel) = 2 \<and> (\<forall>c \<in> set (child_ids rel). classification_of E c = Element)
              then 2 else 0)"
    by (auto simp: symmetric_rule_def split: list.splits)
  from a b show ?thesis by (rule conjI)
qed

text \<open>Wall 30 and slab 40 are connected: both directions are emitted.\<close>

theorem symmetric_triples_witness:
  "rel_type (new_IfcRelationship 200 ''IFCRELCONNECTSELEMENTS'' 10 [30, 40]) = ''IFCRELCONNECTSELEMENTS''
   \<and> classification_of ex_entities 30 = Element
   \<and> classification_of ex_entities 40 = Element
   \<and> ifc_to_bot_triples ex_entities
        ([] @ new_IfcRelationship 200 ''IFCRELCONNECTSELEMENTS'' 10 [30, 40] # []) =
      ifc_to_bot_triples ex_entities []
      @ [(''ex:inst_30'', ''bot:adjacentElement'', ''ex:inst_40''),
         (''ex:inst_40'', ''bot:adjacentElement'', ''ex:inst_30'')]"
proof -
  have h: "rel_type (new_IfcRelationship 200 ''IFCRELCONNECTSELEMENTS'' 10 [30, 40]) = ''IFCRELCONNECTSELEMENTS''"
    by code_simp
  have e: "classification_of ex_entities 30 = Element \<and> classification_of ex_entities 40 = Element"
    by code_simp
  have c: "symmetric_rule ex_entities ''bot:adjacentElement''
             (child_ids (new_IfcRelationship 200 ''IFCRELCONNECTSELEMENTS'' 10 [30, 40])) =
           [(''ex:inst_30'', ''bot:adjacentElement'', ''ex:inst_40''),
            (''ex:inst_40'', ''bot:adjacentElement'', ''ex:inst_30'')]"
    by code_simp
  have "rel_type (new_IfcRelationship 200 ''IFCRELCONNECTSELEMENTS'' 10 [30, 40]) = ''IFCRELCONNECTSELEMENTS''
          \<and> ''bot:adjacentElement'' = ''bot:adjacentElement''
      \<or> rel_type (new_IfcRelationship 200 ''IFCRELCONNECTSELEMENTS'' 10 [30, 40]) = ''IFCRELINTERFERESELEMENTS''
          \<and> ''bot:adjacentElement'' = ''bot:intersectingElement''"
    using h by simp
  from symmetric_triples[OF this, of ex_entities "[]" "[]"] h e show ?thesis
    by (simp only: c relationship_triples_def foldl.simps append_Nil2 simp_thms)
qed

subsection \<open>Type and label triples\<close>

text \<open>
  Claim C3.  For an entry (k, e) of the entity dictionary (whose keys are distinct), the
  output holds exactly one triple with subject \<open>ex:inst_k\<close> and predicate \<open>rdf:type\<close> when
  the type of e maps to a class, and none otherwise; it holds exactly one triple with that
  subject and predicate \<open>rdfs:label\<close> when moreover the name is not empty, and none
  otherwise.  The label is the name between double quotes, with every double quote of the
  name replaced by a backslash and a double quote.
\<close>

theorem entity_type_and_label:
  assumes "distinct (map fst E)" and "(k, e) \<in> set E"
  shows "filter (\<lambda>t. fst t = inst k \<and> fst (snd t) = ''rdf:type'') (ifc_to_bot_triples E rels) =
           (case classify_ifc_entity e of Some c \<Rightarrow> [(inst k, ''rdf:type'', c)] | None \<Rightarrow> [])
       \<and> filter (\<lambda>t. fst t = inst k \<and> fst (snd t) = ''rdfs:label'') (ifc_to_bot_triples E rels) =
           (if classify_ifc_entity e \<noteq> None \<and> name e \<noteq> []
            then [(inst k, ''rdfs:label'',
                   [dquote] @ concat (map (\<lambda>c. if c = dquote then [backslash, dquote] else [c]) (name e)) @ [dquote])]
            else [])"
proof -
  have r1: "filter (\<lambda>t. fst t = inst k \<and> fst (snd t) = ''rdf:type'') (relationship_triples E rels) = []"
    by (rule filter_relationships_pred) (simp add: rel_props_def)
  have r2: "filter (\<lambda>t. fst t = inst k \<and> fst (snd t) = ''rdfs:label'') (relationship_triples E rels) = []"
    by (rule filter_relationships_pred) (simp add: rel_props_def)
  have e1: "filter (\<lambda>t. fst (snd t) = ''rdf:type'') (entity_triples (k, e)) =
              (case classify_ifc_entity e of Some c \<Rightarrow> [(inst k, ''rdf:type'', c)] | None \<Rightarrow> [])"
    by (simp add: entity_triples_def split: option.splits)
  have e2: "filter (\<lambda>t. fst (snd t) = ''rdfs:label'') (entity_triples (k, e)) =
              (if classify_ifc_entity e \<noteq> None \<and> name e \<noteq> []
               then [(inst k, ''rdfs:label'',
                   [dquote] @ concat (map (\<lambda>c. if c = dquote then [backslash, dquote] else [c]) (name e)) @ [dquote])]
               else [])"
    by (simp add: entity_triples_def quoted_def replace_dquote_concat split: option.splits)
  show ?thesis
    unfolding engine_parts filter_append r1 r2
      filter_entities_present[OF assms, of "\<lambda>t. fst (snd t) = ''rdf:type''"]
      filter_entities_present[OF assms, of "\<lambda>t. fst (snd t) = ''rdfs:label''"]
    by (simp only: e1 e2 append_Nil2 simp_thms)
qed

text \<open>The building 10 named Main and the project 1, which has no class.\<close>

theorem entity_type_and_label_witness:
  "distinct (map fst ex_entities)
   \<and> (10, new_IfcEntity 10 ''IFCBUILDING'' ''Main'' ''G1'') \<in> set ex_entities
   \<and> (1, new_IfcEntity 1 ''IFCPROJECT'' ''P'' ''G0'') \<in> set ex_entities
   \<and> filter (\<lambda>t. fst t = inst 10 \<and> fst (snd t) = ''rdf:type'') (ifc_to_bot_triples ex_entities []) =
       [(''ex:inst_10'', ''rdf:type'', ''bot:Building'')]
   \<and> filter (\<lambda>t. fst t = inst 10 \<and> fst (snd t) = ''rdfs:label'') (ifc_to_bot_triples ex_entities []) =
       [(''ex:inst_10'', ''rdfs:label'', [dquote] @ ''Main'' @ [dquote])]
   \<and> filter (\<lambda>t. fst t = inst 1 \<and> fst (snd t) = ''rdf:type'') (ifc_to_bot_triples ex_entities []) = []
   \<and> filter (\<lambda>t. fst t = inst 1 \<and> fst (snd t) = ''rdfs:label'') (ifc_to_bot_triples ex_entities []) = []"
proof -
  have d: "distinct (map fst ex_entities)" by code_simp
  have m: "(10, new_IfcEntity 10 ''IFCBUILDING'' ''Main'' ''G1'') \<in> set ex_entities" by code_simp
  have p: "(1, new_IfcEntity 1 ''IFCPROJECT'' ''P'' ''G0'') \<in> set ex_entities" by code_simp
  have c: "classify_ifc_entity (new_IfcEntity 10 ''IFCBUILDING'' ''Main'' ''G1'') = Some ''bot:Building''"
    by code_simp
  have c1: "classify_ifc_entity (new_IfcEntity 1 ''IFCPROJECT'' ''P'' ''G0'') = None"
    by code_simp
  have n: "name (new_IfcEntity 10 ''IFCBUILDING'' ''Main'' ''G1'') = ''Main''"
    by (simp add: new_IfcEntity_def)
  have q: "concat (map (\<lambda>c. if c = dquote then [backslash, dquote] else [c]) ''Main'') = ''Main''"
    by (simp add: dquote_def)
  have i: "inst 10 = ''ex:inst_10''" by code_simp
  have a: "filter (\<lambda>t. fst t = inst 10 \<and> fst (snd t) = ''rdf:type'') (ifc_to_bot_triples ex_entities []) =
             [(''ex:inst_10'', ''rdf:type'', ''bot:Building'')]
         \<and> filter (\<lambda>t. fst t = inst 10 \<and> fst (snd t) = ''rdfs:label'') (ifc_to_bot_triples ex_entities []) =
             [(''ex:inst_10'', ''rdfs:label'', [dquote] @ ''Main'' @ [dquote])]"
    using entity_type_and_label[OF d m, of "[]"] unfolding c n q
    by (simp add: i)
  have b: "filter (\<lambda>t. fst t = inst 1 \<and> fst (snd t) = ''rdf:type'') (ifc_to_bot_triples ex_entities []) = []
         \<and> filter (\<lambda>t. fst t = inst 1 \<and> fst (snd t) = ''rdfs:label'') (ifc_to_bot_triples ex_entities []) = []"
    using entity_type_and_label[OF d p, of "[]"] unfolding c1
    by simp
  from a b d m p show ?thesis by blast
qed

subsection \<open>References to unknown ids\<close>

text \<open>
  Claim C7.  An id that is absent from the entity dictionary classifies as neither zone nor
  element, and no triple of the output has its instance identifier as subject or as object,
  whatever the relationships are: a pair with such an endpoint contributes nothing.  The
  engine is a total function, so it returns on such input as on any other.
\<close>

theorem unknown_endpoint:
  assumes "map_of E x = None"
  shows "\<not> is_zone_id E x \<and> \<not> is_element_id E x
       \<and> (\<forall>t \<in> set (ifc_to_bot_triples E rels). fst t \<noteq> inst x \<and> snd (snd t) \<noteq> inst x)"
proof -
  have cl: "\<not> is_zone_id E x \<and> \<not> is_element_id E x"
    using assms by (simp add: is_zone_id_def is_element_id_def)
  then have nk: "\<not> known E x" by (simp add: known_def)
  have rel: "fst t \<noteq> inst x \<and> snd (snd t) \<noteq> inst x" if "t \<in> set (relationship_triples E rels)" for t
  proof -
    from that relationship_triples_ok[of E rels] have "rel_triple_ok E t" by blast
    then obtain a b where "known E a" "known E b" "fst t = inst a" "snd (snd t) = inst b"
      by (auto simp: rel_triple_ok_def)
    with nk show ?thesis by (auto simp: inst_inj)
  qed
  have ent: "fst t \<noteq> inst x \<and> snd (snd t) \<noteq> inst x" if "t \<in> set (concat (map entity_triples E))" for t
  proof -
    from that obtain k e where ke: "(k, e) \<in> set E" and t: "t \<in> set (entity_triples (k, e))" by auto
    from ke assms have "k \<noteq> x" by (auto simp: map_of_eq_None_iff image_iff)
    with entity_triples_subject[OF t] entity_triples_object[OF t] show ?thesis
      by (simp add: inst_inj)
  qed
  have "fst t \<noteq> inst x \<and> snd (snd t) \<noteq> inst x" if "t \<in> set (ifc_to_bot_triples E rels)" for t
    using that rel[of t] ent[of t] unfolding engine_parts by (simp only: set_append Un_iff) blast
  with cl show ?thesis by blast
qed

text \<open>Id 99 is not in the dictionary; the aggregation and the connection that refer to it
  leave no triple about it.\<close>

theorem unknown_endpoint_witness:
  "map_of ex_entities 99 = None
   \<and> \<not> is_zone_id ex_entities 99 \<and> \<not> is_element_id ex_entities 99
   \<and> filter (\<lambda>t. fst t = inst 99 \<or> snd (snd t) = inst 99)
        (ifc_to_bot_triples ex_entities
          [new_IfcRelationship 100 ''IFCRELAGGREGATES'' 10 [20, 99],
           new_IfcRelationship 101 ''IFCRELAGGREGATES'' 99 [20],
           new_IfcRelationship 200 ''IFCRELCONNECTSELEMENTS'' 99 [30, 40]]) = []"
proof -
  have h: "map_of ex_entities 99 = None" by code_simp
  from unknown_endpoint[OF h] h show ?thesis
    by (simp only: filter_empty_conv) blast
qed


section \<open>The serializer\<close>

lemma set_first_appearance: "set (first_appearance xs) = set xs"
  by (induction xs) auto

lemma distinct_first_appearance: "distinct (first_appearance xs)"
  by (induction xs) (auto simp: distinct_removeAll)

lemma first_appearance_snoc:
  "first_appearance (xs @ [x]) = (if x \<in> set xs then first_appearance xs else first_appearance xs @ [x])"
  by (induction xs) (auto simp: set_first_appearance)

lemma pairs_of_snoc:
  "pairs_of s (ts @ [(s', p, ob)]) = pairs_of s ts @ (if s' = s then [(p, ob)] else [])"
  by (simp add: pairs_of_def)

lemma map_of_tabulate: "map_of (map (\<lambda>x. (x, f x)) xs) k = (if k \<in> set xs then Some (f k) else None)"
  by (induction xs) auto

lemma update_tabulate_new:
  "k \<notin> set xs \<Longrightarrow> AList.update k v (map (\<lambda>x. (x, f x)) xs) = map (\<lambda>x. (x, f x)) xs @ [(k, v)]"
  by (induction xs) auto

lemma update_tabulate_old:
  "distinct xs \<Longrightarrow> k \<in> set xs \<Longrightarrow>
   AList.update k v (map (\<lambda>x. (x, f x)) xs) = map (\<lambda>x. (x, if x = k then v else f x)) xs"
  by (induction xs) (auto simp: update_tabulate_new)

lemma grouped_snoc: "by_subject_append (grouped ts) t = grouped (ts @ [t])"
proof -
  obtain s p ob where t: "t = (s, p, ob)" by (cases t)
  let ?subs = "first_appearance (map fst ts)"
  show ?thesis
  proof (cases "s \<in> set (map fst ts)")
    case True
    then have m: "s \<in> set ?subs" by (simp add: set_first_appearance)
    have "by_subject_append (grouped ts) t =
            map (\<lambda>x. (x, if x = s then pairs_of s ts @ [(p, ob)] else pairs_of x ts)) ?subs"
      unfolding by_subject_append_def grouped_def t
      using m by (simp add: map_of_tabulate update_tabulate_old distinct_first_appearance)
    also have "\<dots> = map (\<lambda>x. (x, pairs_of x (ts @ [(s, p, ob)]))) ?subs"
      by (rule map_cong) (auto simp: pairs_of_snoc)
    also have "\<dots> = grouped (ts @ [t])"
      using True unfolding grouped_def t by (simp add: first_appearance_snoc)
    finally show ?thesis .
  next
    case False
    then have m: "s \<notin> set ?subs" by (simp add: set_first_appearance)
    have old: "pairs_of x (ts @ [(s, p, ob)]) = pairs_of x ts" if "x \<in> set ?subs" for x
      using that m by (auto simp: pairs_of_snoc)
    have new: "pairs_of s ts = []"
      using False by (auto simp: pairs_of_def filter_empty_conv)
    have "by_subject_append (grouped ts) t = map (\<lambda>x. (x, pairs_of x ts)) ?subs @ [(s, [(p, ob)])]"
      unfolding by_subject_append_def grouped_def t
      using m by (simp add: map_of_tabulate update_tabulate_new)
    also have "map (\<lambda>x. (x, pairs_of x ts)) ?subs = map (\<lambda>x. (x, pairs_of x (ts @ [(s, p, ob)]))) ?subs"
      by (rule map_cong) (simp_all add: old)
    also have "\<dots> @ [(s, [(p, ob)])] = grouped (ts @ [t])"
      using False unfolding grouped_def t by (simp add: first_appearance_snoc pairs_of_snoc new)
    finally show ?thesis .
  qed
qed

lemma group_by_subject_grouped: "group_by_subject ts = grouped ts"
proof (induction ts rule: rev_induct)
  case Nil
  show ?case by (simp add: group_by_subject_def grouped_def)
next
  case (snoc t ts)
  then show ?case by (simp add: group_by_subject_def grouped_snoc)
qed

lemma props_loop_acc:
  "props_loop i n props lines =
     lines @ map (\<lambda>(j, po). pair_line (if i + int j < n - 1 then '' ;'' else '' .'') po)
               (enumerate 0 props)"
proof (induction props arbitrary: i lines)
  case Nil
  show ?case by simp
next
  case (Cons po props)
  obtain p ob where po: "po = (p, ob)" by (cases po)
  have "map (\<lambda>(j, po). pair_line (if i + int j < n - 1 then '' ;'' else '' .'') po) (enumerate (Suc 0) props)
      = map (\<lambda>(j, po). pair_line (if i + 1 + int j < n - 1 then '' ;'' else '' .'') po) (enumerate 0 props)"
    by (simp add: enumerate_Suc_eq map_prod_def split_def comp_def add.assoc ac_simps)
  then show ?case
    unfolding po by (simp add: Cons.IH Let_def pair_line_def)
qed

lemma props_lines:
  "map (\<lambda>(j, po). pair_line (if int j < int (length props) - 1 then '' ;'' else '' .'') po) (enumerate 0 props)
   = map (pair_line '' ;'') (butlast props) @ (if props = [] then [] else [pair_line '' .'' (last props)])"
proof (induction props rule: rev_induct)
  case Nil
  show ?case by simp
next
  case (snoc po props)
  have "map (\<lambda>(j, q). pair_line (if int j < int (length (props @ [po])) - 1 then '' ;'' else '' .'') q)
          (enumerate 0 props) = map (pair_line '' ;'') props"
    by (rule nth_equalityI) (simp_all add: nth_enumerate_eq)
  then show ?case
    by (simp add: enumerate_append_eq)
qed

lemma props_loop_stanza:
  "props_loop 0 (int (length props)) props lines =
     lines @ map (pair_line '' ;'') (butlast props) @ (if props = [] then [] else [pair_line '' .'' (last props)])"
  using props_lines[of props] by (simp add: props_loop_acc)

lemma subjects_loop_acc:
  "subjects_loop d lines = lines @ concat (map (\<lambda>(s, props). stanza s props) d)"
proof (induction d arbitrary: lines)
  case Nil
  show ?case by simp
next
  case (Cons sp d)
  obtain s props where sp: "sp = (s, props)" by (cases sp)
  show ?case
    unfolding sp by (simp add: Cons.IH Let_def props_loop_stanza stanza_def)
qed

text \<open>
  Claim C9.  The serializer's output is the four prefix declarations and an empty line,
  followed by one stanza per distinct subject, the subjects in the order of their first
  appearance among the triples; a stanza is the subject, then its predicate and object
  pairs in input order, each but the last followed by \<open>;\<close> and the last by \<open>.\<close>, then an
  empty line; the lines are joined by newlines.  The pairs of a subject are all the input
  triples with that subject, so a triple given twice is written twice.
\<close>

theorem ttl_format: "triples_to_ttl triples = ttl_document triples"
  unfolding triples_to_ttl_def ttl_document_def Let_def group_by_subject_grouped subjects_loop_acc
  by (simp add: grouped_def comp_def)

text \<open>Two subjects, the first met again after the second, and one triple given twice.\<close>

theorem ttl_format_witness:
  "triples_to_ttl [(''a'', ''p'', ''x''), (''b'', ''p'', ''y''), (''a'', ''q'', ''z''), (''a'', ''p'', ''x'')] =
     join [newline]
       (prefix_lines @
        ['''',
         ''a'', ''    p x ;'', ''    q z ;'', ''    p x .'', '''',
         ''b'', ''    p y .'', ''''])"
  unfolding ttl_format by code_simp


section \<open>The record parser\<close>

subsection \<open>References of a relation record\<close>

lemma reference_at_Suc: "reference_at (c # cs) (Suc i) = reference_at cs i"
  by (simp add: reference_at_def)

lemma reference_at_0:
  "reference_at (c # cs) 0 = (c = CHR ''#'' \<and> takeWhile is_digit cs \<noteq> [])"
  by (cases cs) (auto simp: reference_at_def)

lemma references_Cons:
  "references (c # cs) =
     (if c = CHR ''#'' \<and> takeWhile is_digit cs \<noteq> [] then [takeWhile is_digit cs] else [])
     @ references cs"
proof -
  let ?g = "\<lambda>i. takeWhile is_digit (drop (Suc i) (c # cs))"
  have upt: "[0..<length (c # cs)] = 0 # map Suc [0..<length cs]"
    by (simp add: upt_conv_Cons map_Suc_upt del: upt_Suc)
  have f: "filter (reference_at (c # cs)) (map Suc [0..<length cs]) =
           map Suc (filter (reference_at cs) [0..<length cs])"
    by (simp add: filter_map comp_def reference_at_Suc)
  have tl: "map ?g (map Suc (filter (reference_at cs) [0..<length cs])) = references cs"
    by (simp add: references_def comp_def)
  have "references (c # cs) =
          map ?g (filter (reference_at (c # cs)) (0 # map Suc [0..<length cs]))"
    by (simp only: references_def upt)
  also have "\<dots> = (if reference_at (c # cs) 0 then [?g 0] else [])
                   @ map ?g (filter (reference_at (c # cs)) (map Suc [0..<length cs]))"
    by simp
  also have "\<dots> = (if reference_at (c # cs) 0 then [?g 0] else []) @ references cs"
    by (simp only: f tl)
  finally show ?thesis by (simp add: reference_at_0)
qed

lemma references_Nil: "references [] = []"
  by (simp add: references_def)

lemma digit_not_hash: "is_digit c \<Longrightarrow> c \<noteq> CHR ''#''"
  by (auto simp: is_digit_def)

lemma references_skip_digits: "references (dropWhile is_digit cs) = references cs"
  by (induction cs) (auto simp: references_Cons dest: digit_not_hash)

lemma findall_refs_references: "findall_refs s = references s"
  by (induction s rule: findall_refs.induct)
     (simp_all add: references_Nil references_Cons references_skip_digits)

lemma relation_not_entity: "is_relation_type t \<Longrightarrow> \<not> is_entity_type t"
  by (auto simp: is_relation_type_def is_entity_type_def in_dict_def
      IFC_REL_TO_BOT_PROP_def IFC_TO_BOT_ZONE_def IFC_TO_BOT_ELEMENT_def)

lemma upper_relation_type: "is_relation_type t \<Longrightarrow> upper t = t"
  by (auto simp: is_relation_type_def in_dict_def IFC_REL_TO_BOT_PROP_def upper_def upper_char_def)

lemma upper_entity_type: "is_entity_type t \<Longrightarrow> upper t = t"
  by (auto simp: is_entity_type_def in_dict_def IFC_TO_BOT_ZONE_def IFC_TO_BOT_ELEMENT_def
      upper_def upper_char_def)

lemma parse_line_relation:
  assumes "is_relation_type t"
  shows "parse_line (E, R) (i, t, a) = (E, R @ relationship_of (i, t, a))"
proof -
  from assms have ne: "\<not> (in_dict t IFC_TO_BOT_ZONE \<or> in_dict t IFC_TO_BOT_ELEMENT \<or> t = ''IFCPROJECT'')"
    using relation_not_entity[of t] by (simp add: is_entity_type_def)
  from assms have r: "in_dict t IFC_REL_TO_BOT_PROP" by (simp add: is_relation_type_def)
  show ?thesis
  proof (cases "references a")
    case Nil
    with ne r assms show ?thesis
      by (simp add: parse_line_def relationship_of_def findall_refs_references)
  next
    case (Cons p rest)
    show ?thesis
    proof (cases rest)
      case Nil
      with Cons ne r assms show ?thesis
        by (simp add: parse_line_def relationship_of_def findall_refs_references)
    next
      case (Cons c cs)
      with \<open>references a = p # rest\<close> ne r assms show ?thesis
        by (simp add: parse_line_def relationship_of_def findall_refs_references
            new_IfcRelationship_def upper_relation_type)
    qed
  qed
qed

lemma parse_line_entity:
  assumes "is_entity_type t"
  shows "parse_line (E, R) (i, t, a) = (AList.update i (entity_of (i, t, a)) E, R)"
  using assms
  by (simp add: parse_line_def is_entity_type_def[symmetric] entity_of_def new_IfcEntity_def
      upper_entity_type split: prod.splits)

lemma parse_line_other:
  assumes "\<not> is_entity_type t" "\<not> is_relation_type t"
  shows "parse_line (E, R) (i, t, a) = (E, R)"
  using assms
  by (simp add: parse_line_def is_entity_type_def is_relation_type_def)

lemma parse_line_relationships:
  "snd (parse_line (E, R) l) = R @ relationship_of l"
proof -
  obtain i t a where l: "l = (i, t, a)" by (cases l)
  show ?thesis
  proof (cases "is_relation_type t")
    case True
    then show ?thesis unfolding l by (simp add: parse_line_relation)
  next
    case False
    then have "relationship_of (i, t, a) = []" by (simp add: relationship_of_def)
    with False show ?thesis unfolding l
      by (cases "is_entity_type t") (simp_all add: parse_line_entity parse_line_other)
  qed
qed

lemma parse_snoc:
  "parse_selected_ifc_lines (ls @ [l]) = parse_line (parse_selected_ifc_lines ls) l"
  by (simp add: parse_selected_ifc_lines_def)

text \<open>
  Claim C5.  The relationship sequence the parser returns is, record by record in sequence
  order, what \<open>relationship_of\<close> gives: for a record of a relation type, the references of
  the argument text are all the positions where \<open>#\<close> is followed by a digit, read left to
  right, each with its full run of digits; the first is the parent and the others, in
  order, are the children; with fewer than two references the record gives no
  Relationship.  The parser is a total function: no record makes it fail.
\<close>

theorem relationship_extraction:
  "snd (parse_selected_ifc_lines lines) = concat (map relationship_of lines)
   \<and> findall_refs args_str = references args_str"
proof
  show "snd (parse_selected_ifc_lines lines) = concat (map relationship_of lines)"
  proof (induction lines rule: rev_induct)
    case Nil
    show ?case by (simp add: parse_selected_ifc_lines_def)
  next
    case (snoc l ls)
    obtain E R where st: "parse_selected_ifc_lines ls = (E, R)" by (cases "parse_selected_ifc_lines ls")
    with snoc have "R = concat (map relationship_of ls)" by simp
    then show ?case
      unfolding parse_snoc st by (simp add: parse_line_relationships)
  qed
  show "findall_refs args_str = references args_str" by (rule findall_refs_references)
qed

text \<open>The aggregation of the source's docstring, and a connection with a single
  reference, which is dropped.\<close>

theorem relationship_extraction_witness:
  "snd (parse_selected_ifc_lines
          [(100, ''IFCRELAGGREGATES'', ''X,$,$,$,#20,(#30,#40)''),
           (101, ''IFCRELCONNECTSELEMENTS'', ''$,#7'')]) =
     [\<lparr>rel_id = 100, rel_type = ''IFCRELAGGREGATES'', parent_id = 20, child_ids = [30, 40]\<rparr>]
   \<and> findall_refs ''X,$,$,$,#20,(#30,#40)'' = [''20'', ''30'', ''40'']"
proof -
  have c: "concat (map relationship_of
             [(100, ''IFCRELAGGREGATES'', ''X,$,$,$,#20,(#30,#40)''),
              (101, ''IFCRELCONNECTSELEMENTS'', ''$,#7'')]) =
           [\<lparr>rel_id = 100, rel_type = ''IFCRELAGGREGATES'', parent_id = 20, child_ids = [30, 40]\<rparr>]"
    by code_simp
  have r: "references ''X,$,$,$,#20,(#30,#40)'' = [''20'', ''30'', ''40'']"
    by code_simp
  show ?thesis
    using relationship_extraction[of
        "[(100, ''IFCRELAGGREGATES'', ''X,$,$,$,#20,(#30,#40)''),
          (101, ''IFCRELCONNECTSELEMENTS'', ''$,#7'')]"
        "''X,$,$,$,#20,(#30,#40)''"]
    by (simp only: c r)
qed

subsection \<open>Entity records with the same id\<close>

lemma parse_line_entities:
  "fst (parse_line (E, R) l) =
     (if is_entity_type (fst (snd l)) then AList.update (fst l) (entity_of l) E else E)"
proof -
  obtain i t a where l: "l = (i, t, a)" by (cases l)
  show ?thesis
  proof (cases "is_entity_type t")
    case True
    then show ?thesis unfolding l by (simp add: parse_line_entity)
  next
    case False
    then show ?thesis unfolding l
      by (cases "is_relation_type t") (simp_all add: parse_line_relation parse_line_other)
  qed
qed

lemma entity_records_snoc:
  "entity_records k (ls @ [l]) =
     entity_records k ls @ (if fst l = k \<and> is_entity_type (fst (snd l)) then [l] else [])"
  by (simp add: entity_records_def)

text \<open>
  Claim C10.  The keys of the entity dictionary the parser returns are distinct, and the
  entry of an id is the entity of the last record of an entity type with that id in the
  sequence (none when there is no such record): type, name and global identifier are
  those of that last record.  Nothing checks that ids are unique and nothing fails.
\<close>

theorem last_record_wins:
  "distinct (map fst (fst (parse_selected_ifc_lines lines)))
   \<and> map_of (fst (parse_selected_ifc_lines lines)) k =
       (if entity_records k lines = [] then None
        else Some (entity_of (last (entity_records k lines))))"
proof (induction lines rule: rev_induct)
  case Nil
  show ?case by (simp add: parse_selected_ifc_lines_def entity_records_def)
next
  case (snoc l ls)
  obtain E R where st: "parse_selected_ifc_lines ls = (E, R)" by (cases "parse_selected_ifc_lines ls")
  from snoc st have d: "distinct (map fst E)"
    and m: "map_of E k = (if entity_records k ls = [] then None
                          else Some (entity_of (last (entity_records k ls))))"
    by simp_all
  have E': "fst (parse_selected_ifc_lines (ls @ [l])) =
              (if is_entity_type (fst (snd l)) then AList.update (fst l) (entity_of l) E else E)"
    unfolding parse_snoc st by (rule parse_line_entities)
  show ?case
  proof (cases "is_entity_type (fst (snd l))")
    case True
    with E' have e: "fst (parse_selected_ifc_lines (ls @ [l])) = AList.update (fst l) (entity_of l) E"
      by simp
    have "distinct (map fst (AList.update (fst l) (entity_of l) E))"
      using d by (rule distinct_update)
    moreover have "map_of (AList.update (fst l) (entity_of l) E) k =
        (if entity_records k (ls @ [l]) = [] then None
         else Some (entity_of (last (entity_records k (ls @ [l])))))"
      using True m by (simp add: update_conv' entity_records_snoc)
    ultimately show ?thesis unfolding e by simp
  next
    case False
    with E' have e: "fst (parse_selected_ifc_lines (ls @ [l])) = E" by simp
    from False have "entity_records k (ls @ [l]) = entity_records k ls"
      by (simp add: entity_records_snoc)
    with d m show ?thesis unfolding e by simp
  qed
qed

text \<open>Id 10 is first a building, then a wall: the wall stays, under the single key 10.\<close>

theorem last_record_wins_witness:
  "map fst (fst (parse_selected_ifc_lines
      [(10, ''IFCBUILDING'', sq ''G1'' @ '','' @ sq ''Main''),
       (20, ''IFCSLAB'', sq ''G3'' @ '','' @ sq ''S''),
       (10, ''IFCWALL'', sq ''G2'' @ '','' @ sq ''W'')])) = [10, 20]
   \<and> map_of (fst (parse_selected_ifc_lines
      [(10, ''IFCBUILDING'', sq ''G1'' @ '','' @ sq ''Main''),
       (20, ''IFCSLAB'', sq ''G3'' @ '','' @ sq ''S''),
       (10, ''IFCWALL'', sq ''G2'' @ '','' @ sq ''W'')])) 10 =
     Some \<lparr>ent_id = 10, ent_type = ''IFCWALL'', name = ''W'', global_id = ''G2''\<rparr>"
proof -
  let ?lines = "[(10, ''IFCBUILDING'', sq ''G1'' @ '','' @ sq ''Main''),
       (20, ''IFCSLAB'', sq ''G3'' @ '','' @ sq ''S''),
       (10::int, ''IFCWALL'', sq ''G2'' @ '','' @ sq ''W'')]"
  have k: "map fst (fst (parse_selected_ifc_lines ?lines)) = [10, 20]"
    by code_simp
  have r: "(if entity_records 10 ?lines = [] then None
            else Some (entity_of (last (entity_records 10 ?lines)))) =
           Some \<lparr>ent_id = 10, ent_type = ''IFCWALL'', name = ''W'', global_id = ''G2''\<rparr>"
    by code_simp
  from last_record_wins[of ?lines 10] have
    "map_of (fst (parse_selected_ifc_lines ?lines)) 10 =
       Some \<lparr>ent_id = 10, ent_type = ''IFCWALL'', name = ''W'', global_id = ''G2''\<rparr>"
    by (simp only: r)
  with k show ?thesis by (rule conjI)
qed

subsection \<open>Global identifier and name of an entity record\<close>

lemma lit_Some: "lit c s = Some r \<longleftrightarrow> s = c # r"
  by (auto simp: lit_def split: list.splits)

lemma not_space_comma: "\<not> is_space (CHR '','')"
  by (simp add: is_space_def)

lemma not_space_squote: "\<not> is_space squote"
  by (simp add: is_space_def squote_def)

lemma dropWhile_run: "list_all P xs \<Longrightarrow> \<not> P y \<Longrightarrow> dropWhile P (xs @ y # ys) = y # ys"
  by (induction xs) auto

lemma takeWhile_run: "list_all P xs \<Longrightarrow> \<not> P y \<Longrightarrow> takeWhile P (xs @ y # ys) = xs"
  by (induction xs) auto

lemma no_squote_run: "squote \<notin> set g \<Longrightarrow> list_all (\<lambda>c. c \<noteq> squote) g"
  by (simp add: list_all_iff) blast

lemma m_args_leading_pair: "m_args a = Some (g, n) \<longleftrightarrow> leading_pair a g n"
proof
  assume "leading_pair a g n"
  then obtain ws1 ws2 rest where
    a: "a = [squote] @ g @ [squote] @ ws1 @ '','' @ ws2 @ [squote] @ n @ [squote] @ rest"
    and g: "list_all (\<lambda>c. c \<noteq> squote) g" and n: "list_all (\<lambda>c. c \<noteq> squote) n"
    and w1: "list_all is_space ws1" and w2: "list_all is_space ws2"
    by (auto simp: leading_pair_def dest: no_squote_run)
  have 1: "lit squote a = Some (g @ squote # ws1 @ CHR '','' # ws2 @ squote # n @ squote # rest)"
    by (simp add: a lit_Some)
  have 2: "dropWhile (\<lambda>c. c \<noteq> squote) (g @ squote # ws1 @ CHR '','' # ws2 @ squote # n @ squote # rest)
            = squote # ws1 @ CHR '','' # ws2 @ squote # n @ squote # rest"
    using g by (rule dropWhile_run) simp
  have t2: "takeWhile (\<lambda>c. c \<noteq> squote) (g @ squote # ws1 @ CHR '','' # ws2 @ squote # n @ squote # rest) = g"
    using g by (rule takeWhile_run) simp
  have 3: "dropWhile is_space (ws1 @ CHR '','' # ws2 @ squote # n @ squote # rest)
            = CHR '','' # ws2 @ squote # n @ squote # rest"
    using w1 not_space_comma by (rule dropWhile_run)
  have 4: "dropWhile is_space (ws2 @ squote # n @ squote # rest) = squote # n @ squote # rest"
    using w2 not_space_squote by (rule dropWhile_run)
  have 5: "dropWhile (\<lambda>c. c \<noteq> squote) (n @ squote # rest) = squote # rest"
    using n by (rule dropWhile_run) simp
  have t5: "takeWhile (\<lambda>c. c \<noteq> squote) (n @ squote # rest) = n"
    using n by (rule takeWhile_run) simp
  show "m_args a = Some (g, n)"
    unfolding m_args_def 1 option.case 2 t2 by (simp add: lit_def 3 4 5 t5)
next
  assume m: "m_args a = Some (g, n)"
  then obtain r1 r2 r3 r4 r5 where
    1: "a = squote # r1"
    and 2: "dropWhile (\<lambda>c. c \<noteq> squote) r1 = squote # r2"
    and 3: "dropWhile is_space r2 = CHR '','' # r3"
    and 4: "dropWhile is_space r3 = squote # r4"
    and 5: "dropWhile (\<lambda>c. c \<noteq> squote) r4 = squote # r5"
    and g: "g = takeWhile (\<lambda>c. c \<noteq> squote) r1"
    and n: "n = takeWhile (\<lambda>c. c \<noteq> squote) r4"
    unfolding m_args_def by (auto split: option.splits simp: lit_Some)
  have r1: "r1 = g @ squote # r2"
    using takeWhile_dropWhile_id[of "\<lambda>c. c \<noteq> squote" r1] by (simp add: 2 g)
  have r2: "r2 = takeWhile is_space r2 @ CHR '','' # r3"
    using takeWhile_dropWhile_id[of is_space r2] by (simp add: 3)
  have r3: "r3 = takeWhile is_space r3 @ squote # r4"
    using takeWhile_dropWhile_id[of is_space r3] by (simp add: 4)
  have r4: "r4 = n @ squote # r5"
    using takeWhile_dropWhile_id[of "\<lambda>c. c \<noteq> squote" r4] by (simp add: 5 n)
  have eq: "a = [squote] @ g @ [squote] @ takeWhile is_space r2 @ '','' @ takeWhile is_space r3
                 @ [squote] @ n @ [squote] @ r5"
    by (simp only: 1 append_Cons append_Nil) (metis r1 r2 r3 r4 append_Cons append_Nil append_assoc)
  have sg: "squote \<notin> set g" unfolding g by (auto dest: set_takeWhileD)
  have sn: "squote \<notin> set n" unfolding n by (auto dest: set_takeWhileD)
  have w1: "list_all is_space (takeWhile is_space r2)"
    by (auto simp: list_all_iff dest: set_takeWhileD)
  have w2: "list_all is_space (takeWhile is_space r3)"
    by (auto simp: list_all_iff dest: set_takeWhileD)
  from eq sg sn w1 w2 show "leading_pair a g n"
    unfolding leading_pair_def by blast
qed

text \<open>
  Claim C4, as the parser has it.  For a record of a zone, element or root type the parser
  enters an Entity under the record's id, with the record's type.  Global identifier and
  name are taken from the argument text only when the text begins with a single-quoted
  literal, followed by optional white space, a comma, optional white space and a second
  single-quoted literal: they are then these two literals.  When the text does not begin
  so, both fields are the empty string, also when quoted literals stand later in the text
  or are separated by another attribute.  Nothing fails in either case.
\<close>

theorem entity_field_extraction:
  assumes "is_entity_type t"
  shows "parse_line (E, R) (i, t, a) =
           (AList.update i \<lparr>ent_id = i, ent_type = t, name = snd (entity_fields a),
                               global_id = fst (entity_fields a)\<rparr> E, R)
       \<and> (leading_pair a g n \<longrightarrow> entity_fields a = (g, n))
       \<and> ((\<forall>g n. \<not> leading_pair a g n) \<longrightarrow> entity_fields a = ([], []))"
proof (intro conjI impI)
  show "parse_line (E, R) (i, t, a) =
           (AList.update i \<lparr>ent_id = i, ent_type = t, name = snd (entity_fields a),
                               global_id = fst (entity_fields a)\<rparr> E, R)"
    using assms by (simp add: parse_line_entity entity_of_def)
next
  assume "leading_pair a g n"
  then have "m_args a = Some (g, n)" by (simp add: m_args_leading_pair)
  then show "entity_fields a = (g, n)" by (simp add: entity_fields_def)
next
  assume "\<forall>g n. \<not> leading_pair a g n"
  then have "m_args a = None"
    by (cases "m_args a") (auto simp: m_args_leading_pair)
  then show "entity_fields a = ([], [])" by (simp add: entity_fields_def)
qed

text \<open>The building of the source's docstring, with a space after the comma; and an
  argument text without literals.\<close>

theorem entity_field_extraction_witness:
  "is_entity_type ''IFCBUILDING''
   \<and> leading_pair (sq ''BLDG-001'' @ '', '' @ sq ''Main Building'' @ '',$'') ''BLDG-001'' ''Main Building''
   \<and> entity_fields (sq ''BLDG-001'' @ '', '' @ sq ''Main Building'' @ '',$'') = (''BLDG-001'', ''Main Building'')
   \<and> parse_line ([], []) (30, ''IFCBUILDING'', sq ''BLDG-001'' @ '', '' @ sq ''Main Building'' @ '',$'') =
       ([(30, \<lparr>ent_id = 30, ent_type = ''IFCBUILDING'', name = ''Main Building'',
               global_id = ''BLDG-001''\<rparr>)], [])
   \<and> (\<forall>g n. \<not> leading_pair ''$,$'' g n)
   \<and> entity_fields ''$,$'' = ([], [])"
proof -
  let ?a = "sq ''BLDG-001'' @ '', '' @ sq ''Main Building'' @ '',$''"
  have h: "is_entity_type ''IFCBUILDING''" by code_simp
  have lp: "leading_pair ?a ''BLDG-001'' ''Main Building''"
    unfolding leading_pair_def
    by (rule exI[of _ "[]"], rule exI[of _ "'' ''"], rule exI[of _ "'',$''"])
       (simp add: sq_def squote_def is_space_def)
  from entity_field_extraction[OF h, of "[]" "[]" 30 ?a "''BLDG-001''" "''Main Building''"] lp
  have f: "entity_fields ?a = (''BLDG-001'', ''Main Building'')"
    and p: "parse_line ([], []) (30, ''IFCBUILDING'', ?a) =
         (AList.update 30 \<lparr>ent_id = 30, ent_type = ''IFCBUILDING'', name = snd (entity_fields ?a),
                               global_id = fst (entity_fields ?a)\<rparr> [], [])"
    by blast+
  from p[unfolded f snd_conv fst_conv] have "parse_line ([], []) (30, ''IFCBUILDING'', ?a) =
       ([(30, \<lparr>ent_id = 30, ent_type = ''IFCBUILDING'', name = ''Main Building'',
               global_id = ''BLDG-001''\<rparr>)], [])"
    by simp
  moreover have np: "\<forall>g n. \<not> leading_pair ''$,$'' g n"
  proof (intro allI)
    fix g n
    have "m_args ''$,$'' = None" by code_simp
    then show "\<not> leading_pair ''$,$'' g n" by (simp add: m_args_leading_pair[symmetric])
  qed
  moreover from entity_field_extraction[OF h, of "[]" "[]" 30 "''$,$''" "[]" "[]"] np
  have "entity_fields ''$,$'' = ([], [])" by blast
  ultimately show ?thesis using h lp f by blast
qed

text \<open>
  The claim as the specification words it takes the first two quoted literals wherever
  they appear.  In a record whose two literals are separated by a reference, as in
  \<^verbatim>\<open>'G',#5,'N'\<close>, these are G and N, but the parser leaves both fields empty.
\<close>

theorem entity_field_extraction_counterexample:
  "first_two_literals (sq ''G'' @ '',#5,'' @ sq ''N'') = (''G'', ''N'')
   \<and> entity_fields (sq ''G'' @ '',#5,'' @ sq ''N'') = ([], [])
   \<and> fst (parse_selected_ifc_lines [(1, ''IFCWALL'', sq ''G'' @ '',#5,'' @ sq ''N'')]) =
       [(1, \<lparr>ent_id = 1, ent_type = ''IFCWALL'', name = [], global_id = []\<rparr>)]
   \<and> entity_fields (sq ''G'' @ '',#5,'' @ sq ''N'') \<noteq> first_two_literals (sq ''G'' @ '',#5,'' @ sq ''N'')"
  by code_simp


section \<open>The record selector\<close>

lemma contains_close_Cons:
  "contains_close (c # s) = (c = CHR '')'' \<and> (\<exists>t. s = CHR '';'' # t) \<or> contains_close s)"
  by (cases s) auto

lemma split_close_Cons:
  "split_close (c # s) =
     (if c = CHR '')'' \<and> (\<exists>t. s = CHR '';'' # t) then Some ([], tl s)
      else map_option (\<lambda>(a, r). (c # a, r)) (split_close s))"
  by (cases s) (auto split: option.splits)

lemma split_close_iff:
  "split_close s = Some (a, r) \<longleftrightarrow> s = a @ '');'' @ r \<and> \<not> contains_close (a @ '')'')"
proof (induction s arbitrary: a)
  case Nil
  show ?case by simp
next
  case (Cons c s)
  show ?case
  proof (cases "c = CHR '')'' \<and> (\<exists>t. s = CHR '';'' # t)")
    case True
    then obtain t where c: "c = CHR '')''" and s: "s = CHR '';'' # t" by blast
    have "(c # s = a @ '');'' @ r \<and> \<not> contains_close (a @ '')'')) \<longleftrightarrow> (a = [] \<and> r = t)"
    proof (cases a)
      case Nil
      then show ?thesis by (auto simp: c s)
    next
      case (Cons x xs)
      show ?thesis
      proof (cases xs)
        case Nil
        with Cons show ?thesis by (auto simp: c s)
      next
        case (Cons y ys)
        with \<open>a = x # xs\<close> show ?thesis by (auto simp: c s contains_close_Cons)
      qed
    qed
    with True s show ?thesis by (auto simp: split_close_Cons)
  next
    case False
    have "(c # s = a @ '');'' @ r \<and> \<not> contains_close (a @ '')'')) \<longleftrightarrow>
          (\<exists>a'. a = c # a' \<and> s = a' @ '');'' @ r \<and> \<not> contains_close (a' @ '')''))"
    proof (cases a)
      case Nil
      with False show ?thesis by auto
    next
      case (Cons x xs)
      have "\<not> (c = CHR '')'' \<and> (\<exists>t. xs @ '')'' = CHR '';'' # t))" if "s = xs @ '');'' @ r"
        using False that by (cases xs) auto
      with Cons show ?thesis by (auto simp: contains_close_Cons)
    qed
    also have "\<dots> \<longleftrightarrow> (\<exists>a'. a = c # a' \<and> split_close s = Some (a', r))"
      by (simp add: Cons.IH)
    also have "\<dots> \<longleftrightarrow> split_close (c # s) = Some (a, r)"
      using False by (auto simp: split_close_Cons)
    finally show ?thesis by simp
  qed
qed

lemma not_space_eq: "\<not> is_space (CHR ''='')" by (simp add: is_space_def)
lemma not_space_paren: "\<not> is_space (CHR ''('')" by (simp add: is_space_def)
lemma not_digit_eq: "\<not> is_digit (CHR ''='')" by (simp add: is_digit_def)
lemma not_word_paren: "\<not> is_word (CHR ''('')" by (simp add: is_word_def)
lemma space_not_digit: "is_space c \<Longrightarrow> \<not> is_digit c" by (auto simp: is_space_def is_digit_def Let_def)
lemma space_not_word: "is_space c \<Longrightarrow> \<not> is_word c" by (auto simp: is_space_def is_word_def Let_def)
lemma word_not_space: "is_word c \<Longrightarrow> \<not> is_space c" by (auto simp: is_space_def is_word_def Let_def)

text \<open>A run of one class followed by a run of a disjoint class and a character of neither.\<close>

lemma dropWhile_run2:
  assumes "list_all P xs" "\<And>c. Q c \<Longrightarrow> \<not> P c" "list_all Q ws" "\<not> P y"
  shows "dropWhile P (xs @ ws @ y # ys) = ws @ y # ys"
  using assms by (induction xs) (auto simp: list_all_iff dropWhile_eq_self_iff neq_Nil_conv hd_append split: if_splits)

lemma takeWhile_run2:
  assumes "list_all P xs" "\<And>c. Q c \<Longrightarrow> \<not> P c" "list_all Q ws" "\<not> P y"
  shows "takeWhile P (xs @ ws @ y # ys) = xs"
proof -
  have "takeWhile P (xs @ ws @ y # ys) @ dropWhile P (xs @ ws @ y # ys) = xs @ ws @ y # ys"
    by (rule takeWhile_dropWhile_id)
  then show ?thesis by (simp add: dropWhile_run2[OF assms])
qed


lemma list_all_takeWhile: "list_all P (takeWhile P xs)"
  by (auto simp: list_all_iff dest: set_takeWhileD)

lemma match_record_shape:
  "match_record s = Some ((ds, w, args), rest) \<longleftrightarrow> record_shape s ds w args rest"
proof
  assume "record_shape s ds w args rest"
  then obtain ws1 ws2 ws3 where
    s: "s = ''#'' @ ds @ ws1 @ ''='' @ ws2 @ w @ ws3 @ ''('' @ args @ '');'' @ rest"
    and ds: "ds \<noteq> []" "list_all is_digit ds"
    and w: "w \<noteq> []" "list_all is_word w"
    and ws: "list_all is_space ws1" "list_all is_space ws2" "list_all is_space ws3"
    and nc: "\<not> contains_close (args @ '')'')"
    unfolding record_shape_def by blast
  let ?Y = "args @ CHR '')'' # CHR '';'' # rest"
  let ?X = "ws2 @ w @ ws3 @ CHR ''('' # ?Y"
  let ?r1 = "ds @ ws1 @ CHR ''='' # ?X"
  have 1: "lit (CHR ''#'') s = Some ?r1" by (simp add: s lit_Some)
  have t1: "takeWhile is_digit ?r1 = ds"
    using ds(2) space_not_digit ws(1) not_digit_eq by (rule takeWhile_run2)
  have d1: "dropWhile is_digit ?r1 = ws1 @ CHR ''='' # ?X"
    using ds(2) space_not_digit ws(1) not_digit_eq by (rule dropWhile_run2)
  have d2: "dropWhile is_space (ws1 @ CHR ''='' # ?X) = CHR ''='' # ?X"
    using ws(1) not_space_eq by (rule dropWhile_run)
  from w obtain w0 w' where w0: "w = w0 # w'" and nsp: "\<not> is_space w0"
    by (cases w) (auto dest: word_not_space)
  have d3: "dropWhile is_space ?X = w @ ws3 @ CHR ''('' # ?Y"
    using dropWhile_run[OF ws(2) nsp, of "w' @ ws3 @ CHR ''('' # ?Y"] by (simp add: w0)
  have t4: "takeWhile is_word (w @ ws3 @ CHR ''('' # ?Y) = w"
    using w(2) space_not_word ws(3) not_word_paren by (rule takeWhile_run2)
  have d4: "dropWhile is_word (w @ ws3 @ CHR ''('' # ?Y) = ws3 @ CHR ''('' # ?Y"
    using w(2) space_not_word ws(3) not_word_paren by (rule dropWhile_run2)
  have d5: "dropWhile is_space (ws3 @ CHR ''('' # ?Y) = CHR ''('' # ?Y"
    using ws(3) not_space_paren by (rule dropWhile_run)
  have sc: "split_close ?Y = Some (args, rest)"
    using nc by (simp add: split_close_iff)
  show "match_record s = Some ((ds, w, args), rest)"
    unfolding match_record_def 1 option.case t1 d1 d2
    using ds(1) w(1) by (simp add: lit_def d3 t4 d4 d5 sc)
next
  assume m: "match_record s = Some ((ds, w, args), rest)"
  then obtain r1 r2 r3 where
    1: "s = CHR ''#'' # r1"
    and ds: "ds = takeWhile is_digit r1" "ds \<noteq> []"
    and 2: "dropWhile is_space (dropWhile is_digit r1) = CHR ''='' # r2"
    and w: "w = takeWhile is_word (dropWhile is_space r2)" "w \<noteq> []"
    and 3: "dropWhile is_space (dropWhile is_word (dropWhile is_space r2)) = CHR ''('' # r3"
    and 4: "split_close r3 = Some (args, rest)"
    unfolding match_record_def by (auto split: option.splits if_splits simp: lit_Some)
  let ?ws1 = "takeWhile is_space (dropWhile is_digit r1)"
  let ?ws2 = "takeWhile is_space r2"
  let ?ws3 = "takeWhile is_space (dropWhile is_word (dropWhile is_space r2))"
  have r1: "r1 = ds @ ?ws1 @ CHR ''='' # r2"
    using takeWhile_dropWhile_id[of is_digit r1]
      takeWhile_dropWhile_id[of is_space "dropWhile is_digit r1"]
    by (simp add: ds(1) 2)
  have r2: "r2 = ?ws2 @ w @ ?ws3 @ CHR ''('' # r3"
    using takeWhile_dropWhile_id[of is_space r2]
      takeWhile_dropWhile_id[of is_word "dropWhile is_space r2"]
      takeWhile_dropWhile_id[of is_space "dropWhile is_word (dropWhile is_space r2)"]
    by (simp add: w(1) 3)
  from 4 have r3: "r3 = args @ '');'' @ rest" and nc: "\<not> contains_close (args @ '')'')"
    by (simp_all add: split_close_iff)
  have "s = ''#'' @ ds @ ?ws1 @ ''='' @ ?ws2 @ w @ ?ws3 @ ''('' @ args @ '');'' @ rest"
    unfolding 1 by (subst r1, subst r2, subst r3) simp
  moreover have "list_all is_digit ds" "list_all is_word w"
    unfolding ds(1) w(1) by (rule list_all_takeWhile)+
  moreover have "list_all is_space ?ws1" "list_all is_space ?ws2" "list_all is_space ?ws3"
    by (rule list_all_takeWhile)+
  ultimately show "record_shape s ds w args rest"
    unfolding record_shape_def using ds(2) w(2) nc by blast
qed

lemma finditer_leftmost:
  assumes "\<forall>i<length pre. match_record (drop i (pre @ s)) = None"
    and "match_record s = Some (g, rest)"
  shows "finditer (pre @ s) = g # finditer rest"
  using assms(1)
proof (induction pre)
  case Nil
  from assms(2) obtain c cs where "s = c # cs"
    by (cases s) (auto simp: match_record_def lit_def)
  with assms(2) show ?case by simp
next
  case (Cons p pre)
  from Cons.prems have 0: "match_record ((p # pre) @ s) = None" by force
  have "\<forall>i<length pre. match_record (drop i (pre @ s)) = None"
  proof (intro allI impI)
    fix i assume "i < length pre"
    with Cons.prems have "match_record (drop (Suc i) ((p # pre) @ s)) = None" by force
    then show "match_record (drop i (pre @ s)) = None" by simp
  qed
  with Cons.IH have "finditer (pre @ s) = g # finditer rest" by blast
  with 0 show ?case by simp
qed

lemma finditer_none:
  "\<forall>i<length t. match_record (drop i t) = None \<Longrightarrow> finditer t = []"
proof (induction t)
  case Nil
  show ?case by simp
next
  case (Cons c t)
  from Cons.prems have 0: "match_record (c # t) = None" by force
  have "\<forall>i<length t. match_record (drop i t) = None"
  proof (intro allI impI)
    fix i assume "i < length t"
    with Cons.prems have "match_record (drop (Suc i) (c # t)) = None" by force
    then show "match_record (drop i t) = None" by simp
  qed
  with Cons.IH 0 show ?case by simp
qed

lemma scan_step_append:
  "scan_step acc m = acc @ (if of_interest m then [record_of m] else [])"
  by (cases m) (simp add: scan_step_def record_of_def of_interest_def Let_def)

lemma foldl_scan_step:
  "foldl scan_step acc ms = acc @ map record_of (filter of_interest ms)"
proof (induction ms arbitrary: acc)
  case Nil
  show ?case by simp
next
  case (Cons m ms)
  have "foldl scan_step acc (m # ms) = foldl scan_step (scan_step acc m) ms" by simp
  also have "\<dots> = scan_step acc m @ map record_of (filter of_interest ms)" by (rule Cons.IH)
  also have "scan_step acc m = acc @ (if of_interest m then [record_of m] else [])"
    by (rule scan_step_append)
  also have "(acc @ (if of_interest m then [record_of m] else [])) @ map record_of (filter of_interest ms)
             = acc @ map record_of (filter of_interest (m # ms))"
    by simp
  finally show ?case .
qed

text \<open>
  Claim C6, as the selector has it.  The selector returns, in source order, the matches of
  the pattern found by a scan from the left whose type identifier, in upper case, is of
  interest; each is stored as (id, upper-case type, argument text).  A match is a text of
  the shape \<^verbatim>\<open>#<digits> = <IDENTIFIER>(<args>);\<close> whose arguments end at the first
  \<open>);\<close> after the opening parenthesis.  The scan reports the first position where the
  pattern matches and resumes after the end of that match, so matches do not overlap;
  where no position matches, nothing is reported.  The selector is a total function: no
  text makes it fail.
\<close>

theorem selector_matches:
  "scan_ifc_and_extract_lines ifc_text = map record_of (filter of_interest (finditer ifc_text))
   \<and> (match_record s = Some ((ds, w, args), rest) \<longleftrightarrow> record_shape s ds w args rest)
   \<and> ((\<forall>i<length pre. match_record (drop i (pre @ s)) = None) \<and> match_record s = Some (g, rest')
        \<longrightarrow> finditer (pre @ s) = g # finditer rest')
   \<and> ((\<forall>i<length t. match_record (drop i t) = None) \<longrightarrow> finditer t = [])"
proof (intro conjI impI)
  show "scan_ifc_and_extract_lines ifc_text = map record_of (filter of_interest (finditer ifc_text))"
    by (simp add: scan_ifc_and_extract_lines_def foldl_scan_step)
  show "match_record s = Some ((ds, w, args), rest) \<longleftrightarrow> record_shape s ds w args rest"
    by (rule match_record_shape)
  show "finditer (pre @ s) = g # finditer rest'"
    if "(\<forall>i<length pre. match_record (drop i (pre @ s)) = None) \<and> match_record s = Some (g, rest')"
    using that finditer_leftmost by blast
  show "finditer t = []" if "\<forall>i<length t. match_record (drop i t) = None"
    using that by (rule finditer_none)
qed

text \<open>Some text, a building in lower case with a space before the parenthesis, and a
  record of a type that is not of interest.\<close>

theorem selector_matches_witness:
  "scan_ifc_and_extract_lines ''junk #10=ifcbuilding (x,y); #11 = FOO(1);'' =
     [(10, ''IFCBUILDING'', ''x,y'')]
   \<and> match_record ''#10=ifcbuilding (x,y); #11 = FOO(1);'' =
       Some ((''10'', ''ifcbuilding'', ''x,y''), '' #11 = FOO(1);'')
   \<and> record_shape ''#10=ifcbuilding (x,y); #11 = FOO(1);'' ''10'' ''ifcbuilding'' ''x,y'' '' #11 = FOO(1);''
   \<and> finditer (''junk '' @ ''#10=ifcbuilding (x,y); #11 = FOO(1);'') =
       (''10'', ''ifcbuilding'', ''x,y'') # finditer '' #11 = FOO(1);''
   \<and> finditer ''#1 = IFCWALL(A'' = []"
proof -
  let ?s = "''#10=ifcbuilding (x,y); #11 = FOO(1);''"
  let ?g = "(''10'', ''ifcbuilding'', ''x,y'')"
  note sel = selector_matches[where ifc_text = "''junk #10=ifcbuilding (x,y); #11 = FOO(1);''"
      and s = "''#10=ifcbuilding (x,y); #11 = FOO(1);''"
      and ds = "''10''" and w = "''ifcbuilding''" and args = "''x,y''"
      and rest = "'' #11 = FOO(1);''" and pre = "''junk ''"
      and g = "(''10'', ''ifcbuilding'', ''x,y'')" and rest' = "'' #11 = FOO(1);''"
      and t = "''#1 = IFCWALL(A''"]
  have e: "map record_of (filter of_interest (finditer ''junk #10=ifcbuilding (x,y); #11 = FOO(1);'')) =
             [(10, ''IFCBUILDING'', ''x,y'')]"
    by code_simp
  have m: "match_record ?s = Some (?g, '' #11 = FOO(1);'')"
    by code_simp
  have n: "\<forall>i<length ''junk ''. match_record (drop i (''junk '' @ ?s)) = None"
  proof (intro allI impI)
    fix i :: nat assume "i < length ''junk ''"
    then have "i \<in> set [0, 1, 2, 3, 4]" by auto
    moreover have "\<forall>j \<in> set [0, 1, 2, 3, 4::nat]. match_record (drop j (''junk '' @ ?s)) = None"
      by code_simp
    ultimately show "match_record (drop i (''junk '' @ ?s)) = None" by blast
  qed
  have z: "\<forall>i<length ''#1 = IFCWALL(A''. match_record (drop i ''#1 = IFCWALL(A'') = None"
  proof (intro allI impI)
    fix i :: nat assume "i < length ''#1 = IFCWALL(A''"
    then have "i \<in> set [0..<14]" by simp
    moreover have "\<forall>j \<in> set [0..<14]. match_record (drop j ''#1 = IFCWALL(A'') = None"
      by code_simp
    ultimately show "match_record (drop i ''#1 = IFCWALL(A'') = None" by blast
  qed
  from sel have 1: "scan_ifc_and_extract_lines ''junk #10=ifcbuilding (x,y); #11 = FOO(1);'' =
     [(10, ''IFCBUILDING'', ''x,y'')]"
    by (simp only: e)
  from sel m have 2: "record_shape ?s ''10'' ''ifcbuilding'' ''x,y'' '' #11 = FOO(1);''"
    by blast
  from sel n m have 3: "finditer (''junk '' @ ?s) = ?g # finditer '' #11 = FOO(1);''"
    by blast
  from sel z have 4: "finditer ''#1 = IFCWALL(A'' = []"
    by blast
  from 1 m 2 3 4 show ?thesis by blast
qed

text \<open>
  The claim as the specification words it returns every record of the shape and skips
  malformed records.  In the text below the first record is not terminated; the pattern
  matches it up to the \<open>);\<close> of the second record, so the selector returns the first
  record with the second inside its arguments, and does not return the second.
\<close>

theorem selector_matches_counterexample:
  "scan_ifc_and_extract_lines ''#1 = IFCWALL(A #2 = IFCSLAB(B);'' =
     [(1, ''IFCWALL'', ''A #2 = IFCSLAB(B'')]
   \<and> match_record (drop 15 ''#1 = IFCWALL(A #2 = IFCSLAB(B);'') = Some ((''2'', ''IFCSLAB'', ''B''), [])
   \<and> records_of_shape ''#1 = IFCWALL(A #2 = IFCSLAB(B);'' =
     [(1, ''IFCWALL'', ''A #2 = IFCSLAB(B''), (2, ''IFCSLAB'', ''B'')]
   \<and> (2, ''IFCSLAB'', ''B'') \<notin> set (scan_ifc_and_extract_lines ''#1 = IFCWALL(A #2 = IFCSLAB(B);'')
   \<and> scan_ifc_and_extract_lines ''#1 = IFCWALL(A #2 = IFCSLAB(B);'' \<noteq>
     records_of_shape ''#1 = IFCWALL(A #2 = IFCSLAB(B);''"
  by code_simp

end
